theory Spec2Isabelle
  imports Main
begin

section \<open>Data model\<close>

text \<open>
  The types of \<^verbatim>\<open>src/app/lib/types.ts\<close> and of the review client. TypeScript string
  unions are datatypes, object types are records, \<^verbatim>\<open>string | null\<close> is an option.
  JavaScript numbers that hold character offsets are modelled as \<open>int\<close>; strings are
  \<open>string\<close>, one \<open>char\<close> standing for one code unit.
\<close>

datatype AnnotationStatus = Open | Resolved | NeedsRemap

datatype Severity = Low | Medium | High

datatype AnnotationCategory = MissingInfo | Formatting | Compliance | LegalRisk | Clarification

datatype UnanchoredReason = NotFoundInVersion | UserNeedsRemap

text \<open>\<open>TextRange sectionId start end\<close> and \<open>Unanchored reason\<close>: the tagged union
  \<^verbatim>\<open>AnnotationAnchor\<close>, the tag being the field \<^verbatim>\<open>kind\<close>.\<close>

datatype AnnotationAnchor = TextRange string int int | Unanchored UnanchoredReason

fun isTextRangeAnchor :: "AnnotationAnchor \<Rightarrow> bool" where
  "isTextRangeAnchor (TextRange s b e) = True"
| "isTextRangeAnchor (Unanchored r) = False"

fun isUnanchoredAnchor :: "AnnotationAnchor \<Rightarrow> bool" where
  "isUnanchoredAnchor (Unanchored r) = (r = NotFoundInVersion \<or> r = UserNeedsRemap)"
| "isUnanchoredAnchor (TextRange s b e) = False"

section \<open>Highlight renderer\<close>

text \<open>\<^verbatim>\<open>clamp(n, min, max) = Math.max(min, Math.min(max, n))\<close>.\<close>

definition clamp :: "int \<Rightarrow> int \<Rightarrow> int \<Rightarrow> int" where
  "clamp n lo hi = max lo (min hi n)"

text \<open>
  \<^verbatim>\<open>String.prototype.slice(begin, end)\<close>: a negative index counts from the end, every
  index is cut to the range of the string, and an empty string results when the end does
  not exceed the begin. \<open>slice_from\<close> is the call with one argument.
\<close>

definition slice :: "string \<Rightarrow> int \<Rightarrow> int \<Rightarrow> string" where
  "slice s b e =
     (let len = int (length s);
          from = (if b < 0 then max (len + b) 0 else min b len);
          to = (if e < 0 then max (len + e) 0 else min e len)
      in take (nat (to - from)) (drop (nat from) s))"

definition slice_from :: "string \<Rightarrow> int \<Rightarrow> string" where
  "slice_from s b = slice s b (int (length s))"

record Highlight =
  h_id :: string
  h_start :: int
  h_end :: int
  h_status :: AnnotationStatus

text \<open>
  The React keys are template strings built from the offsets; they are kept as structured
  values: \<open>TKey c s\<close> is \<^verbatim>\<open>t-c-s\<close>, \<open>TKeyEnd c\<close> is \<^verbatim>\<open>t-c-end\<close>, and \<open>MKey s e i\<close> is
  \<^verbatim>\<open>m-s-e-i\<close>.
\<close>

datatype PartKey = TKey int int | TKeyEnd int | MKey int int string

datatype Part =
    TextPart string PartKey
  | MarkPart string PartKey string AnnotationStatus

fun part_value :: "Part \<Rightarrow> string" where
  "part_value (TextPart v k) = v"
| "part_value (MarkPart v k i st) = v"

fun is_mark :: "Part \<Rightarrow> bool" where
  "is_mark (TextPart v k) = False"
| "is_mark (MarkPart v k i st) = True"

text \<open>
  The body of the \<^verbatim>\<open>for (const h of sorted)\<close> loop, as a recursion over the sorted
  spans that carries the cursor and the parts pushed so far.
\<close>

fun sweep :: "string \<Rightarrow> Highlight list \<Rightarrow> int \<Rightarrow> Part list \<Rightarrow> int \<times> Part list" where
  "sweep paragraphText [] cursor parts = (cursor, parts)"
| "sweep paragraphText (h # hs) cursor parts =
     (let start = clamp (h_start h) 0 (int (length paragraphText));
          end = clamp (h_end h) 0 (int (length paragraphText))
      in if end \<le> start then sweep paragraphText hs cursor parts
         else
           let parts1 =
                 (if start > cursor
                  then parts @ [TextPart (slice paragraphText cursor start) (TKey cursor start)]
                  else parts);
               parts2 =
                 parts1 @ [MarkPart (slice paragraphText start end) (MKey start end (h_id h))
                             (h_id h) (h_status h)]
           in sweep paragraphText hs end parts2)"

text \<open>
  The renderer returns the bare string when there is no span, and the list of parts
  otherwise. \<^verbatim>\<open>Array.prototype.sort\<close> is stable, as \<open>sort_key\<close> is.
\<close>

datatype Rendered = PlainString string | Fragments "Part list"

definition renderHighlightedParagraph :: "string \<Rightarrow> Highlight list \<Rightarrow> Rendered" where
  "renderHighlightedParagraph paragraphText highlights =
     (if length highlights = 0 then PlainString paragraphText
      else
        let sorted = sort_key h_start highlights;
            (cursor, parts) = sweep paragraphText sorted 0 []
        in Fragments
             (if cursor < int (length paragraphText)
              then parts @ [TextPart (slice_from paragraphText cursor) (TKeyEnd cursor)]
              else parts))"

text \<open>What the reader sees: the values of the rendered parts, one after the other.\<close>

fun rendered_text :: "Rendered \<Rightarrow> string" where
  "rendered_text (PlainString s) = s"
| "rendered_text (Fragments ps) = concat (map part_value ps)"

section \<open>Annotations, activity log and review state\<close>

record Annotation =
  ann_id :: string
  docId :: string
  ann_versionId :: string
  quote :: string
  category :: AnnotationCategory
  severity :: Severity
  status :: AnnotationStatus
  assigneeId :: "string option"
  comment :: string
  anchor :: AnnotationAnchor
  createdAt :: string
  updatedAt :: string

text \<open>
  The \<^verbatim>\<open>type\<close> tag of an activity item together with its \<^verbatim>\<open>meta\<close> object, the fields
  of \<^verbatim>\<open>meta\<close> in the order of the source: \<open>ANNOTATION_CREATED annotationId quote category
  severity\<close>, \<open>ASSIGNEE_CHANGED annotationId quote toUserId\<close>, \<open>VERSION_SWITCHED toVersionId\<close>,
  \<open>ANNOTATIONS_CARRIED_OVER fromVersionId toVersionId count\<close>, and \<open>annotationId quote\<close> for
  the three others.
\<close>

datatype ActivityMeta =
    ANNOTATION_CREATED string string AnnotationCategory Severity
  | ANNOTATION_RESOLVED string string
  | ANNOTATION_REOPENED string string
  | ASSIGNEE_CHANGED string string "string option"
  | VERSION_SWITCHED string
  | ANNOTATIONS_CARRIED_OVER string string nat
  | ANNOTATION_REMAPPED string string

record ActivityItem =
  item_id :: string
  item_at :: string
  type_meta :: ActivityMeta

text \<open>The bounding rectangle of a selection (x, y, width, height), used for display only.\<close>

datatype DOMRect = DOMRect int int int int

text \<open>A non-null \<^verbatim>\<open>SelectionDraft\<close>; the nullable draft of the source is an option.\<close>

record SelectionDraft =
  sectionId :: string
  paraIndex :: int
  startLocal :: int
  endLocal :: int
  draft_quote :: string
  rect :: DOMRect

text \<open>Of the external document only the fields the review client reads are kept.\<close>

record DocumentVersion =
  v_id :: string
  versionNumber :: int

record Document =
  doc_id :: string
  versions :: "DocumentVersion list"

datatype Mode = editor | viewer

datatype Tab = Issues | Activity

text \<open>
  The \<^verbatim>\<open>useState\<close> cells of \<^verbatim>\<open>ReviewClient\<close> that the store operations read or write
  (filters, search query and command palette are display state and left out). The form
  cells \<^verbatim>\<open>category\<close>, \<^verbatim>\<open>severity\<close>, \<^verbatim>\<open>assigneeId\<close> and \<^verbatim>\<open>comment\<close> carry the prefix
  \<open>form\<close>. The two counters record how often the id generator and the clock have been
  consulted so far.
\<close>

record ReviewState =
  versionId :: string
  annotationsByVersion :: "string \<rightharpoonup> Annotation list"
  activity :: "ActivityItem list"
  activeTab :: Tab
  selectedAnnotationId :: "string option"
  selectionDraft :: "SelectionDraft option"
  showModal :: bool
  formCategory :: AnnotationCategory
  formSeverity :: Severity
  formAssigneeId :: string
  formComment :: string
  remapTargetId :: "string option"
  mode :: Mode
  idCalls :: nat
  clockCalls :: nat

text \<open>
  \<^verbatim>\<open>genId(prefix)\<close> draws a random identifier and \<^verbatim>\<open>nowIso()\<close> reads the clock. Both are
  effects of the environment: \<open>genId_at env k prefix\<close> is the result of the \<open>k\<close>-th call of
  \<^verbatim>\<open>genId\<close> of the session and \<open>nowIso_at env k\<close> the result of the \<open>k\<close>-th reading of the
  clock. One handler runs to completion before the next. A value passed to a state setter
  is computed in the handler; an updater function passed to a state setter is run after
  the handler's own statements, so that the clock readings made inside an updater follow
  the readings the handler makes for its activity item.
\<close>

record Env =
  genId_at :: "nat \<Rightarrow> string \<Rightarrow> string"
  nowIso_at :: "nat \<Rightarrow> string"

text \<open>\<^verbatim>\<open>record[key] ?? []\<close>.\<close>

definition bucket :: "ReviewState \<Rightarrow> string \<Rightarrow> Annotation list" where
  "bucket st v = (case annotationsByVersion st v of None \<Rightarrow> [] | Some l \<Rightarrow> l)"

definition currentAnnotations :: "ReviewState \<Rightarrow> Annotation list" where
  "currentAnnotations st = bucket st (versionId st)"

text \<open>
  \<^verbatim>\<open>String.prototype.trim\<close>, on the white space that fits a \<open>char\<close>: tab, line feed,
  vertical tab, form feed, carriage return, space and no-break space.
\<close>

definition isWhiteSpace :: "char \<Rightarrow> bool" where
  "isWhiteSpace c = (of_char c \<in> {9, 10, 11, 12, 13, 32, 160 :: nat})"

definition trim :: "string \<Rightarrow> string" where
  "trim s = rev (dropWhile isWhiteSpace (rev (dropWhile isWhiteSpace s)))"

text \<open>
  \<^verbatim>\<open>list.map((a) => (a.id === id ? { ...a, ..., updatedAt: nowIso() } : a))\<close>: the clock is
  read once for every element that is rewritten. The result is the new list and the
  number of clock readings made so far.
\<close>

fun stamp_map ::
  "Env \<Rightarrow> (Annotation \<Rightarrow> bool) \<Rightarrow> (Annotation \<Rightarrow> string \<Rightarrow> Annotation) \<Rightarrow>
   Annotation list \<Rightarrow> nat \<Rightarrow> Annotation list \<times> nat" where
  "stamp_map env p f [] t = ([], t)"
| "stamp_map env p f (a # as) t =
     (if p a
      then (let (r, t') = stamp_map env p f as (Suc t) in (f a (nowIso_at env t) # r, t'))
      else (let (r, t') = stamp_map env p f as t in (a # r, t')))"

section \<open>Store operations\<close>

text \<open>
  The initial cells of \<^verbatim>\<open>ReviewClient\<close>: no annotation, and one activity item for the
  version the page opens on.
\<close>

definition initialState :: "Env \<Rightarrow> string \<Rightarrow> ReviewState" where
  "initialState env initialVersionId =
     \<lparr>versionId = initialVersionId,
      annotationsByVersion = Map.empty,
      activity = [\<lparr>item_id = genId_at env 0 ''ev'', item_at = nowIso_at env 0,
                   type_meta = VERSION_SWITCHED initialVersionId\<rparr>],
      activeTab = Issues,
      selectedAnnotationId = None,
      selectionDraft = None,
      showModal = False,
      formCategory = Clarification,
      formSeverity = Medium,
      formAssigneeId = [],
      formComment = [],
      remapTargetId = None,
      mode = editor,
      idCalls = 1,
      clockCalls = 1\<rparr>"

text \<open>\<^verbatim>\<open>clearSelectionUI\<close>; dropping the browser's own selection has no effect on the cells.\<close>

definition clearSelectionUI :: "ReviewState \<Rightarrow> ReviewState" where
  "clearSelectionUI st = st\<lparr>selectionDraft := None, showModal := False\<rparr>"

definition createAnnotation :: "Env \<Rightarrow> Document \<Rightarrow> ReviewState \<Rightarrow> ReviewState" where
  "createAnnotation env doc st =
     (if mode st = viewer then st
      else case selectionDraft st of
        None \<Rightarrow> st
      | Some draft \<Rightarrow>
          let id = genId_at env (idCalls st) ''a'';
              newAnn =
                \<lparr>ann_id = id,
                 docId = doc_id doc,
                 ann_versionId = versionId st,
                 quote = draft_quote draft,
                 category = formCategory st,
                 severity = formSeverity st,
                 status = Open,
                 assigneeId = (if formAssigneeId st \<noteq> [] then Some (formAssigneeId st) else None),
                 comment = trim (formComment st),
                 anchor = TextRange (sectionId draft) (startLocal draft) (endLocal draft),
                 createdAt = nowIso_at env (clockCalls st),
                 updatedAt = nowIso_at env (clockCalls st + 1)\<rparr>;
              existing = bucket st (versionId st)
          in clearSelectionUI
               (st\<lparr>annotationsByVersion := (annotationsByVersion st)(versionId st \<mapsto> newAnn # existing),
                   activity :=
                     \<lparr>item_id = genId_at env (idCalls st + 1) ''ev'',
                      item_at = nowIso_at env (clockCalls st + 2),
                      type_meta = ANNOTATION_CREATED id (draft_quote draft) (formCategory st) (formSeverity st)\<rparr>
                     # activity st,
                   selectedAnnotationId := Some id,
                   activeTab := Issues,
                   idCalls := idCalls st + 2,
                   clockCalls := clockCalls st + 3\<rparr>))"

definition toggleResolved :: "Env \<Rightarrow> string \<Rightarrow> ReviewState \<Rightarrow> ReviewState" where
  "toggleResolved env i st =
     (if mode st = viewer then st
      else case find (\<lambda>a. ann_id a = i) (currentAnnotations st) of
        None \<Rightarrow> st
      | Some ann \<Rightarrow>
          if status ann = NeedsRemap then st
          else
            let nextStatus = (if status ann = Resolved then Open else Resolved);
                (next, t) =
                  stamp_map env (\<lambda>a. ann_id a = i)
                    (\<lambda>a now. a\<lparr>status := nextStatus, updatedAt := now\<rparr>)
                    (bucket st (versionId st)) (Suc (clockCalls st))
            in st\<lparr>annotationsByVersion := (annotationsByVersion st)(versionId st \<mapsto> next),
                  activity :=
                    \<lparr>item_id = genId_at env (idCalls st) ''ev'',
                     item_at = nowIso_at env (clockCalls st),
                     type_meta =
                       (if nextStatus = Resolved then ANNOTATION_RESOLVED i (quote ann)
                        else ANNOTATION_REOPENED i (quote ann))\<rparr>
                    # activity st,
                  idCalls := Suc (idCalls st),
                  clockCalls := t\<rparr>)"

definition changeAssignee :: "Env \<Rightarrow> string \<Rightarrow> string option \<Rightarrow> ReviewState \<Rightarrow> ReviewState" where
  "changeAssignee env i toUserId st =
     (if mode st = viewer then st
      else case find (\<lambda>a. ann_id a = i) (currentAnnotations st) of
        None \<Rightarrow> st
      | Some ann \<Rightarrow>
          let (next, t) =
                stamp_map env (\<lambda>a. ann_id a = i)
                  (\<lambda>a now. a\<lparr>assigneeId := toUserId, updatedAt := now\<rparr>)
                  (bucket st (versionId st)) (Suc (clockCalls st))
          in st\<lparr>annotationsByVersion := (annotationsByVersion st)(versionId st \<mapsto> next),
                activity :=
                  \<lparr>item_id = genId_at env (idCalls st) ''ev'',
                   item_at = nowIso_at env (clockCalls st),
                   type_meta = ASSIGNEE_CHANGED i (quote ann) toUserId\<rparr>
                  # activity st,
                idCalls := Suc (idCalls st),
                clockCalls := t\<rparr>)"

text \<open>\<^verbatim>\<open>if (!remapTargetId) return\<close> also returns on the empty string.\<close>

definition remapIssue :: "Env \<Rightarrow> ReviewState \<Rightarrow> ReviewState" where
  "remapIssue env st =
     (if mode st = viewer then st
      else case remapTargetId st of
        None \<Rightarrow> st
      | Some target \<Rightarrow>
          if target = [] then st
          else
            (case selectionDraft st of
               None \<Rightarrow> st
             | Some draft \<Rightarrow>
              (case find (\<lambda>a. ann_id a = target) (currentAnnotations st) of
                 None \<Rightarrow> st
               | Some ann \<Rightarrow>
                   let (next, t) =
                         stamp_map env (\<lambda>a. ann_id a = target)
                           (\<lambda>a now. a\<lparr>status := Open,
                                       quote := draft_quote draft,
                                       anchor := TextRange (sectionId draft) (startLocal draft) (endLocal draft),
                                       updatedAt := now\<rparr>)
                           (bucket st (versionId st)) (Suc (clockCalls st))
                   in clearSelectionUI
                        (st\<lparr>annotationsByVersion := (annotationsByVersion st)(versionId st \<mapsto> next),
                            activity :=
                              \<lparr>item_id = genId_at env (idCalls st) ''ev'',
                               item_at = nowIso_at env (clockCalls st),
                               type_meta = ANNOTATION_REMAPPED target (quote ann)\<rparr>
                              # activity st,
                            selectedAnnotationId := Some target,
                            remapTargetId := None,
                            idCalls := Suc (idCalls st),
                            clockCalls := t\<rparr>))))"

section \<open>Version carry-over\<close>

text \<open>\<^verbatim>\<open>Array.prototype.findIndex\<close>: the first index whose element passes, or \<open>-1\<close>.\<close>

fun findIndex :: "('a \<Rightarrow> bool) \<Rightarrow> 'a list \<Rightarrow> int" where
  "findIndex p [] = - 1"
| "findIndex p (x # xs) =
     (if p x then 0 else (let r = findIndex p xs in if r < 0 then - 1 else r + 1))"

text \<open>The versions by descending version number (a stable sort).\<close>

definition versions_sorted :: "Document \<Rightarrow> DocumentVersion list" where
  "versions_sorted doc = sort_key (\<lambda>v. - versionNumber v) (versions doc)"

definition currentVersionIndex :: "Document \<Rightarrow> string \<Rightarrow> int" where
  "currentVersionIndex doc vid = findIndex (\<lambda>v. v_id v = vid) (versions_sorted doc)"

text \<open>
  \<^verbatim>\<open>versions[currentVersionIndex + 1]?.id ?? null\<close>: the id of the version that follows
  the current one in the sorted list, and null past its end.
\<close>

definition previousVersionId :: "Document \<Rightarrow> string \<Rightarrow> string option" where
  "previousVersionId doc vid =
     (let i = currentVersionIndex doc vid
      in if i < 0 then None
         else if nat (i + 1) < length (versions_sorted doc)
              then Some (v_id (versions_sorted doc ! nat (i + 1)))
              else None)"

text \<open>
  \<^verbatim>\<open>toCarry.map((a) => ({ ...a, id: genId("a"), versionId, status: "NeedsRemap", anchor:
  { kind: "Unanchored", reason: "UserNeedsRemap" }, createdAt: nowIso(), updatedAt: nowIso()
  }))\<close>, with the number \<open>i\<close> of ids drawn and \<open>t\<close> of clock readings made before the element.
\<close>

fun carry :: "Env \<Rightarrow> string \<Rightarrow> Annotation list \<Rightarrow> nat \<Rightarrow> nat \<Rightarrow> Annotation list" where
  "carry env vid [] i t = []"
| "carry env vid (a # as) i t =
     a\<lparr>ann_id := genId_at env i ''a'',
       ann_versionId := vid,
       status := NeedsRemap,
       anchor := Unanchored UserNeedsRemap,
       createdAt := nowIso_at env t,
       updatedAt := nowIso_at env (Suc t)\<rparr>
     # carry env vid as (Suc i) (t + 2)"

text \<open>\<^verbatim>\<open>if (!previousVersionId) return\<close> also returns on the empty string.\<close>

definition carryOverFromPrevious :: "Env \<Rightarrow> Document \<Rightarrow> ReviewState \<Rightarrow> ReviewState" where
  "carryOverFromPrevious env doc st =
     (if mode st = viewer then st
      else case previousVersionId doc (versionId st) of
        None \<Rightarrow> st
      | Some prevId \<Rightarrow>
          if prevId = [] then st
          else
            let prevAnns = bucket st prevId;
                toCarry = filter (\<lambda>a. status a \<noteq> Resolved) prevAnns
            in if length toCarry = 0 then st
               else
                 let carried = carry env (versionId st) toCarry (idCalls st) (clockCalls st);
                     existing = bucket st (versionId st)
                 in st\<lparr>annotationsByVersion := (annotationsByVersion st)(versionId st \<mapsto> carried @ existing),
                       activity :=
                         \<lparr>item_id = genId_at env (idCalls st + length toCarry) ''ev'',
                          item_at = nowIso_at env (clockCalls st + 2 * length toCarry),
                          type_meta = ANNOTATIONS_CARRIED_OVER prevId (versionId st) (length carried)\<rparr>
                         # activity st,
                       idCalls := idCalls st + length toCarry + 1,
                       clockCalls := clockCalls st + 2 * length toCarry + 1\<rparr>)"

section \<open>Handlers that prepare the store operations\<close>

text \<open>
  The \<^verbatim>\<open>onChange\<close> handler of the version selector, the one of the role selector, and the
  palette actions that set the mode alone.
\<close>

definition selectVersion :: "Env \<Rightarrow> string \<Rightarrow> ReviewState \<Rightarrow> ReviewState" where
  "selectVersion env next st =
     st\<lparr>versionId := next,
        selectedAnnotationId := None,
        selectionDraft := None,
        showModal := False,
        remapTargetId := None,
        activity :=
          \<lparr>item_id = genId_at env (idCalls st) ''ev'',
           item_at = nowIso_at env (clockCalls st),
           type_meta = VERSION_SWITCHED next\<rparr>
          # activity st,
        idCalls := Suc (idCalls st),
        clockCalls := Suc (clockCalls st)\<rparr>"

definition selectMode :: "Mode \<Rightarrow> ReviewState \<Rightarrow> ReviewState" where
  "selectMode m st = st\<lparr>mode := m, showModal := False, remapTargetId := None, selectionDraft := None\<rparr>"

definition setMode :: "Mode \<Rightarrow> ReviewState \<Rightarrow> ReviewState" where
  "setMode m st = st\<lparr>mode := m\<rparr>"

text \<open>
  \<^verbatim>\<open>handleMouseUp\<close>, given what \<^verbatim>\<open>getSelectionDraft\<close> read from the browser (the viewer
  element being mounted).
\<close>

definition handleMouseUp :: "SelectionDraft option \<Rightarrow> ReviewState \<Rightarrow> ReviewState" where
  "handleMouseUp draft st =
     (if mode st = viewer then st
      else case draft of
        None \<Rightarrow> st\<lparr>selectionDraft := None\<rparr>
      | Some d \<Rightarrow> st\<lparr>selectionDraft := Some d\<rparr>)"

definition openCreateModal :: "ReviewState \<Rightarrow> ReviewState" where
  "openCreateModal st =
     (if mode st = viewer then st
      else case selectionDraft st of
        None \<Rightarrow> st
      | Some d \<Rightarrow>
          st\<lparr>remapTargetId := None,
             formComment := [],
             formAssigneeId := [],
             formCategory := Clarification,
             formSeverity := Medium,
             showModal := True\<rparr>)"

definition startRemap :: "string \<Rightarrow> ReviewState \<Rightarrow> ReviewState" where
  "startRemap i st =
     (if mode st = viewer then st else st\<lparr>remapTargetId := Some i, activeTab := Issues\<rparr>)"

definition cancelRemap :: "ReviewState \<Rightarrow> ReviewState" where
  "cancelRemap st = st\<lparr>remapTargetId := None\<rparr>"

definition handleClickHighlight :: "string \<Rightarrow> ReviewState \<Rightarrow> ReviewState" where
  "handleClickHighlight i st = st\<lparr>selectedAnnotationId := Some i, activeTab := Issues\<rparr>"

text \<open>
  The events of a session that reach the annotation store, import excepted. The form
  events are the setters of the four form cells.
\<close>

datatype Event =
    CreateAnnotation
  | ToggleResolved string
  | ChangeAssignee string "string option"
  | RemapIssue
  | CarryOverFromPrevious
  | SelectVersion string
  | SelectMode Mode
  | SetMode Mode
  | MouseUp "SelectionDraft option"
  | OpenCreateModal
  | StartRemap string
  | CancelRemap
  | ClickHighlight string
  | SetCategory AnnotationCategory
  | SetSeverity Severity
  | SetAssigneeId string
  | SetComment string

fun step :: "Env \<Rightarrow> Document \<Rightarrow> ReviewState \<Rightarrow> Event \<Rightarrow> ReviewState" where
  "step env doc st CreateAnnotation = createAnnotation env doc st"
| "step env doc st (ToggleResolved i) = toggleResolved env i st"
| "step env doc st (ChangeAssignee i u) = changeAssignee env i u st"
| "step env doc st RemapIssue = remapIssue env st"
| "step env doc st CarryOverFromPrevious = carryOverFromPrevious env doc st"
| "step env doc st (SelectVersion v) = selectVersion env v st"
| "step env doc st (SelectMode m) = selectMode m st"
| "step env doc st (SetMode m) = setMode m st"
| "step env doc st (MouseUp d) = handleMouseUp d st"
| "step env doc st OpenCreateModal = openCreateModal st"
| "step env doc st (StartRemap i) = startRemap i st"
| "step env doc st CancelRemap = cancelRemap st"
| "step env doc st (ClickHighlight i) = handleClickHighlight i st"
| "step env doc st (SetCategory c) = st\<lparr>formCategory := c\<rparr>"
| "step env doc st (SetSeverity s) = st\<lparr>formSeverity := s\<rparr>"
| "step env doc st (SetAssigneeId u) = st\<lparr>formAssigneeId := u\<rparr>"
| "step env doc st (SetComment c) = st\<lparr>formComment := c\<rparr>"

text \<open>A session: the events handled one after the other, each to completion.\<close>

definition run :: "Env \<Rightarrow> Document \<Rightarrow> ReviewState \<Rightarrow> Event list \<Rightarrow> ReviewState" where
  "run env doc st evs = foldl (step env doc) st evs"

section \<open>Export and import\<close>


text \<open>
  A JSON value as \<^verbatim>\<open>JSON.parse\<close> returns it. A number is kept as an integer: of the numbers
  only zero is falsy, and no number is of the type of a field that the import tests.
\<close>

datatype Json =
    JNull
  | JBool bool
  | JNumber int
  | JString string
  | JArray "Json list"
  | JObject "(string \<times> Json) list"

text \<open>
  JavaScript falsiness of a JSON value: \<^verbatim>\<open>null\<close>, \<^verbatim>\<open>false\<close>, \<^verbatim>\<open>0\<close> and the empty string.
  Arrays and objects are truthy, the empty ones too.
\<close>

fun falsy :: "Json \<Rightarrow> bool" where
  "falsy JNull = True"
| "falsy (JBool b) = (\<not> b)"
| "falsy (JNumber n) = (n = 0)"
| "falsy (JString s) = (s = [])"
| "falsy (JArray xs) = False"
| "falsy (JObject kvs) = False"

text \<open>
  What a parsed object holds under the key \<^verbatim>\<open>annotationsByVersion\<close> or \<^verbatim>\<open>activity\<close>:
  nothing (\<^verbatim>\<open>undefined\<close>), a value of the declared type of the field, or some other JSON
  value, which is then not of the declared type. The cast of the source checks nothing,
  so that the third kind is accepted when it is truthy.
\<close>

datatype 'a Field = Absent | Typed 'a | Other Json

fun is_typed :: "'a Field \<Rightarrow> bool" where
  "is_typed (Typed x) = True"
| "is_typed Absent = False"
| "is_typed (Other j) = False"

text \<open>\<^verbatim>\<open>!parsed.field\<close>: a value of the declared type is an object or an array, hence truthy.\<close>

fun falsy_field :: "'a Field \<Rightarrow> bool" where
  "falsy_field Absent = True"
| "falsy_field (Typed x) = False"
| "falsy_field (Other j) = falsy j"

text \<open>
  The object read from a file, under the keys of \<^verbatim>\<open>ExportPayload\<close>; a missing key is
  \<open>None\<close> or \<open>Absent\<close>. The four scalar fields hold whatever JSON value the file gives them.
\<close>

record ParsedPayload =
  schema_field :: "Json option"
  exportedAt_field :: "Json option"
  docId_field :: "Json option"
  versionId_field :: "Json option"
  annotationsByVersion_field :: "(string \<rightharpoonup> Annotation list) Field"
  activity_field :: "ActivityItem list Field"

text \<open>
  The text of a file is not modelled character by character. A file is text that
  \<^verbatim>\<open>JSON.parse\<close> rejects (or that cannot be read), the text \<^verbatim>\<open>null\<close>, or text that denotes
  some other value, given by what it holds under the keys of the payload (a number, a
  string, a boolean or an array holds nothing under them). \<^verbatim>\<open>JSON.stringify\<close> of a
  payload writes the text that denotes the payload with every field present: the values
  of a payload are strings, integers, nulls, arrays and plain objects, all of which JSON
  represents exactly.
\<close>

datatype FileText = NotJson | JsonNullText | JsonText ParsedPayload


text \<open>
  \<^verbatim>\<open>JSON.parse\<close>; \<open>None\<close> is the exception it throws. The value \<^verbatim>\<open>null\<close> is \<open>NullValue\<close>:
  reading a property of it throws.
\<close>

datatype Parsed = NullValue | ObjectValue ParsedPayload

fun JSON_parse :: "FileText \<Rightarrow> Parsed option" where
  "JSON_parse NotJson = None"
| "JSON_parse JsonNullText = Some NullValue"
| "JSON_parse (JsonText p) = Some (ObjectValue p)"



text \<open>
  The cells after an import that stored a value not of the declared type: what the cells
  \<^verbatim>\<open>annotationsByVersion\<close> and \<open>activity\<close> hold now, and the other cells.
\<close>

record IllTypedStore =
  stored_annotationsByVersion :: "(string \<rightharpoonup> Annotation list) Field"
  stored_activity :: "ActivityItem list Field"
  other_cells :: ReviewState

text \<open>\<^verbatim>\<open>typeof parsed.versionId === "string"\<close>, then \<^verbatim>\<open>setVersionId\<close>.\<close>

fun adoptVersionId :: "Json option \<Rightarrow> ReviewState \<Rightarrow> ReviewState" where
  "adoptVersionId (Some (JString v)) st = st\<lparr>versionId := v\<rparr>"
| "adoptVersionId other st = st"

text \<open>
  \<^verbatim>\<open>importJsonFile\<close>, applied to the text of the chosen file. The \<^verbatim>\<open>catch\<close> branch and
  the two early returns all leave the state as it is (\<open>Inr\<close> of the state). Past them the
  two cells take the values of the file as they are: \<open>Inr\<close> of the new state when both are
  of the declared type, \<open>Inl\<close> of what the cells hold otherwise.
\<close>

definition importJsonFile :: "FileText \<Rightarrow> ReviewState \<Rightarrow> IllTypedStore + ReviewState" where
  "importJsonFile fileText st =
     (case JSON_parse fileText of
        None \<Rightarrow> Inr st
      | Some NullValue \<Rightarrow> Inr st
      | Some (ObjectValue parsed) \<Rightarrow>
          if schema_field parsed \<noteq> Some (JString ''review-mini-v1'') then Inr st
          else if falsy_field (annotationsByVersion_field parsed) \<or> falsy_field (activity_field parsed)
          then Inr st
          else
            let st1 = adoptVersionId (versionId_field parsed) st;
                st2 = clearSelectionUI (st1\<lparr>selectedAnnotationId := None, remapTargetId := None\<rparr>)
            in (case (annotationsByVersion_field parsed, activity_field parsed) of
                  (Typed abv, Typed act) \<Rightarrow> Inr (st2\<lparr>annotationsByVersion := abv, activity := act\<rparr>)
                | (fa, fb) \<Rightarrow>
                    Inl \<lparr>stored_annotationsByVersion = fa, stored_activity = fb, other_cells = st2\<rparr>))"

section \<open>Properties of the environment and of the data\<close>

text \<open>
  The id generator never returns the same identifier twice (\<^verbatim>\<open>crypto.randomUUID\<close>): the
  data model's "identified by a unique id".
\<close>

definition uniqueIds :: "Env \<Rightarrow> bool" where
  "uniqueIds env = (\<forall>k k' p p'. genId_at env k p = genId_at env k' p' \<longrightarrow> k = k')"

text \<open>The invariant of the data model: \<open>status = NeedsRemap\<close> exactly when the anchor is unanchored.\<close>

definition anchor_invariant :: "Annotation \<Rightarrow> bool" where
  "anchor_invariant a = ((status a = NeedsRemap) = isUnanchoredAnchor (anchor a))"

text \<open>Every id in the store is one the generator has already drawn.\<close>

definition ids_drawn :: "Env \<Rightarrow> ReviewState \<Rightarrow> bool" where
  "ids_drawn env st =
     (\<forall>v l. annotationsByVersion st v = Some l \<longrightarrow>
        (\<forall>a\<in>set l. \<exists>k<idCalls st. \<exists>p. ann_id a = genId_at env k p))"

text \<open>
  Spans that do not overlap: in the order given, every span that survives clamping to the
  text starts at or after the end of the surviving span before it (the cursor).
\<close>

fun spans_disjoint :: "int \<Rightarrow> int \<Rightarrow> Highlight list \<Rightarrow> bool" where
  "spans_disjoint len cursor [] = True"
| "spans_disjoint len cursor (h # hs) =
     (let start = clamp (h_start h) 0 len; end = clamp (h_end h) 0 len
      in if end \<le> start then spans_disjoint len cursor hs
         else cursor \<le> start \<and> spans_disjoint len end hs)"

section \<open>Sample data\<close>

text \<open>
  An environment whose \<open>k\<close>-th identifier is \<open>k + 1\<close> letters \<open>u\<close> and whose \<open>k\<close>-th clock
  reading is \<open>k + 1\<close> letters \<open>t\<close>, a document with the versions \<open>v1\<close> and \<open>v2\<close>, an
  annotation and a state to vary. The sample state has read the clock seven times and
  drawn five ids.
\<close>

definition sample_env :: Env where
  "sample_env =
     \<lparr>genId_at = (\<lambda>k p. replicate (Suc k) (CHR ''u'')),
      nowIso_at = (\<lambda>k. replicate (Suc k) (CHR ''t''))\<rparr>"

definition sample_doc :: Document where
  "sample_doc =
     \<lparr>doc_id = ''d1'',
      versions = [\<lparr>v_id = ''v1'', versionNumber = 1\<rparr>, \<lparr>v_id = ''v2'', versionNumber = 2\<rparr>]\<rparr>"

definition sample_ann :: "string \<Rightarrow> string \<Rightarrow> AnnotationStatus \<Rightarrow> AnnotationAnchor \<Rightarrow> Annotation" where
  "sample_ann i v s an =
     \<lparr>ann_id = i, docId = ''d1'', ann_versionId = v, quote = ''old quote'',
      category = Compliance, severity = High, status = s, assigneeId = Some ''u2'',
      comment = ''check'', anchor = an, createdAt = ''c'', updatedAt = ''c''\<rparr>"

definition sample_draft :: SelectionDraft where
  "sample_draft =
     \<lparr>sectionId = ''s2'', paraIndex = 0, startLocal = 10, endLocal = 19,
      draft_quote = ''services.'', rect = DOMRect 0 0 40 12\<rparr>"

definition sample_state :: "Mode \<Rightarrow> string \<Rightarrow> (string \<rightharpoonup> Annotation list) \<Rightarrow> ReviewState" where
  "sample_state m v abv =
     \<lparr>versionId = v, annotationsByVersion = abv, activity = [],
      activeTab = Issues, selectedAnnotationId = None, selectionDraft = Some sample_draft,
      showModal = False, formCategory = Clarification, formSeverity = Medium,
      formAssigneeId = [], formComment = [], remapTargetId = None, mode = m,
      idCalls = 5, clockCalls = 7\<rparr>"

text \<open>
  What the store keeps along a session: in every bucket the ids are distinct, every
  annotation satisfies the invariant of the data model, and every id is one the generator
  has already drawn.
\<close>

definition store_inv :: "Env \<Rightarrow> ReviewState \<Rightarrow> bool" where
  "store_inv env st =
     (\<forall>v l. annotationsByVersion st v = Some l \<longrightarrow>
        distinct (map ann_id l) \<and>
        (\<forall>a\<in>set l. anchor_invariant a \<and> (\<exists>k<idCalls st. \<exists>p. ann_id a = genId_at env k p)))"

text \<open>The events of a short session: select text, annotate it, switch to \<open>v2\<close>, carry over.\<close>

definition sample_session :: "Event list" where
  "sample_session = [MouseUp (Some sample_draft), CreateAnnotation, SelectVersion ''v2'', CarryOverFromPrevious]"

text \<open>
  A bucket for \<open>v1\<close> with one annotation of each of the three given statuses; the ids
  are the first three of the sample generator.
\<close>

definition sample_bucket :: "AnnotationStatus \<Rightarrow> AnnotationStatus \<Rightarrow> AnnotationStatus \<Rightarrow> Annotation list" where
  "sample_bucket s1 s2 s3 =
     map (\<lambda>(i, s). sample_ann i ''v1'' s
                     (if s = NeedsRemap then Unanchored NotFoundInVersion else TextRange ''s2'' 10 19))
       [(''u'', s1), (''uu'', s2), (''uuu'', s3)]"

text \<open>
  A file of the given schema and activity field; its \<open>annotationsByVersion\<close> differs from
  the one of the mixed state below in the status of the third annotation.
\<close>

definition sample_payload :: "string \<Rightarrow> ActivityItem list Field \<Rightarrow> ParsedPayload" where
  "sample_payload sch act =
     \<lparr>schema_field = Some (JString sch), exportedAt_field = Some (JString ''e''),
      docId_field = Some (JString ''d1''), versionId_field = Some (JString ''v1''),
      annotationsByVersion_field = Typed [''v1'' \<mapsto> sample_bucket Open Resolved Open],
      activity_field = act\<rparr>"

text \<open>A state whose bucket for \<open>v1\<close> holds an open, a resolved and an unanchored annotation.\<close>

definition mixed_state :: "Mode \<Rightarrow> string \<Rightarrow> ReviewState" where
  "mixed_state m v = sample_state m v [''v1'' \<mapsto> sample_bucket Open Resolved NeedsRemap]"

text \<open>A state on \<open>v2\<close> whose bucket for \<open>v1\<close> holds two open annotations and a resolved one.\<close>

definition two_open_state :: ReviewState where
  "two_open_state = sample_state editor ''v2'' [''v1'' \<mapsto> sample_bucket Open Resolved Open]"

text \<open>The mixed state on \<open>v1\<close> with the unanchored annotation \<open>uuu\<close> as remap target.\<close>

definition remap_state :: "Mode \<Rightarrow> ReviewState" where
  "remap_state m = (mixed_state m ''v1'')\<lparr>remapTargetId := Some ''uuu''\<rparr>"

section \<open>The highlight renderer on spans that do not overlap\<close>

text \<open>
  When the sorted spans do not overlap, also with offsets outside the text, the rendered
  fragments spell the paragraph text.
\<close>

lemma take_slice:
  "0 \<le> a \<Longrightarrow> a \<le> b \<Longrightarrow> b \<le> int (length s) \<Longrightarrow> take (nat a) s @ slice s a b = take (nat b) s"
proof -
  assume a: "0 \<le> a" "a \<le> b" "b \<le> int (length s)"
  then have "slice s a b = take (nat (b - a)) (drop (nat a) s)"
    by (simp add: slice_def Let_def min_def)
  moreover have "nat b = nat a + nat (b - a)" using a by simp
  ultimately show ?thesis by (simp add: take_add)
qed

lemma clamp_bounds: "0 \<le> len \<Longrightarrow> 0 \<le> clamp n 0 len \<and> clamp n 0 len \<le> len"
  by (simp add: clamp_def)

lemma sweep_prefix:
  "0 \<le> c \<Longrightarrow> c \<le> int (length s) \<Longrightarrow> concat (map part_value parts) = take (nat c) s \<Longrightarrow>
   spans_disjoint (int (length s)) c hs \<Longrightarrow>
   0 \<le> fst (sweep s hs c parts) \<and> fst (sweep s hs c parts) \<le> int (length s) \<and>
   concat (map part_value (snd (sweep s hs c parts))) = take (nat (fst (sweep s hs c parts))) s"
proof (induction hs arbitrary: c parts)
  case Nil
  then show ?case by simp
next
  case (Cons h hs)
  let ?len = "int (length s)"
  let ?start = "clamp (h_start h) 0 ?len"
  let ?end = "clamp (h_end h) 0 ?len"
  have bs: "0 \<le> ?start" "?start \<le> ?len" and be: "0 \<le> ?end" "?end \<le> ?len"
    using clamp_bounds [of ?len] by simp_all
  show ?case
  proof (cases "?end \<le> ?start")
    case True
    with Cons.prems have "spans_disjoint ?len c hs" by (simp add: Let_def)
    from Cons.IH [OF Cons.prems(1,2,3) this] True show ?thesis by (simp add: Let_def)
  next
    case False
    with Cons.prems have le: "c \<le> ?start" and rest: "spans_disjoint ?len ?end hs"
      by (simp_all add: Let_def)
    let ?parts1 = "if ?start > c then parts @ [TextPart (slice s c ?start) (TKey c ?start)] else parts"
    let ?parts2 = "?parts1 @ [MarkPart (slice s ?start ?end) (MKey ?start ?end (h_id h)) (h_id h) (h_status h)]"
    have p1: "concat (map part_value ?parts1) = take (nat ?start) s"
    proof (cases "?start > c")
      case True
      then show ?thesis
        using Cons.prems(1,3) bs take_slice [of c ?start s] by simp
    next
      case False
      with le have "c = ?start" by simp
      with False Cons.prems(3) show ?thesis by simp
    qed
    have p2: "concat (map part_value ?parts2) = take (nat ?end) s"
      using p1 False bs be take_slice [of ?start ?end s] by simp
    from Cons.IH [OF be(1) be(2) p2 rest] False show ?thesis
      by (simp add: Let_def)
  qed
qed

lemma renderer_reconstructs_disjoint_spans:
  assumes "spans_disjoint (int (length s)) 0 (sort_key h_start hs)"
  shows "rendered_text (renderHighlightedParagraph s hs) = s"
proof (cases "length hs = 0")
  case True
  then show ?thesis by (simp add: renderHighlightedParagraph_def)
next
  case False
  let ?r = "sweep s (sort_key h_start hs) 0 []"
  from sweep_prefix [of 0 s "[]" "sort_key h_start hs"] assms
  have c: "0 \<le> fst ?r" "fst ?r \<le> int (length s)"
    and t: "concat (map part_value (snd ?r)) = take (nat (fst ?r)) s"
    by simp_all
  have tail: "take (nat (fst ?r)) s @ slice_from s (fst ?r) = s"
    using c take_slice [of "fst ?r" "int (length s)" s] by (simp add: slice_from_def)
  show ?thesis
  proof (cases "fst ?r < int (length s)")
    case True
    with False t tail show ?thesis
      by (simp add: renderHighlightedParagraph_def Let_def split_beta)
  next
    case False
    with c have "nat (fst ?r) = length s" by simp
    with \<open>length hs \<noteq> 0\<close> False t show ?thesis
      by (simp add: renderHighlightedParagraph_def Let_def split_beta)
  qed
qed

section \<open>Auxiliary facts\<close>

lemma stamp_map_none:
  "\<forall>a\<in>set xs. \<not> p a \<Longrightarrow> stamp_map env p f xs t = (xs, t)"
  by (induction xs arbitrary: t) auto

lemma find_distinct_id:
  "distinct (map ann_id xs) \<Longrightarrow> a \<in> set xs \<Longrightarrow> find (\<lambda>b. ann_id b = ann_id a) xs = Some a"
  by (induction xs) (auto simp: image_iff)

lemma map_if_other:
  "\<forall>b\<in>set xs. b \<noteq> a \<Longrightarrow> map (\<lambda>b. if b = a then c else b) xs = xs"
  by (induction xs) auto

text \<open>With unique ids in the list, the rewriting map touches one element and reads the clock once.\<close>

lemma stamp_map_single:
  "distinct (map ann_id xs) \<Longrightarrow> a \<in> set xs \<Longrightarrow>
   stamp_map env (\<lambda>b. ann_id b = ann_id a) f xs t =
     (map (\<lambda>b. if b = a then f a (nowIso_at env t) else b) xs, Suc t)"
proof (induction xs arbitrary: t)
  case Nil
  then show ?case by simp
next
  case (Cons x xs)
  show ?case
  proof (cases "x = a")
    case True
    from Cons.prems have no: "\<forall>b\<in>set xs. ann_id b \<noteq> ann_id a"
      using True by (auto simp: image_iff)
    then have ne: "\<forall>b\<in>set xs. b \<noteq> a" by auto
    from no have "stamp_map env (\<lambda>b. ann_id b = ann_id a) f xs (Suc t) = (xs, Suc t)"
      by (intro stamp_map_none) simp
    with True ne show ?thesis by (simp add: map_if_other)
  next
    case False
    with Cons.prems have in_xs: "a \<in> set xs" and d: "distinct (map ann_id xs)"
      and nid: "ann_id x \<noteq> ann_id a"
      by (auto simp: image_iff)
    from Cons.IH [OF d in_xs] False nid show ?thesis by simp
  qed
qed

text \<open>The carried batch, element by element.\<close>

lemma carry_length: "length (carry env vid xs i t) = length xs"
  by (induction xs arbitrary: i t) auto

lemma carry_nth:
  "k < length xs \<Longrightarrow>
   carry env vid xs i t ! k =
     (xs ! k)\<lparr>ann_id := genId_at env (i + k) ''a'',
              ann_versionId := vid,
              status := NeedsRemap,
              anchor := Unanchored UserNeedsRemap,
              createdAt := nowIso_at env (t + 2 * k),
              updatedAt := nowIso_at env (Suc (t + 2 * k))\<rparr>"
proof (induction xs arbitrary: i t k)
  case Nil
  then show ?case by simp
next
  case (Cons x xs)
  show ?case
  proof (cases k)
    case 0
    then show ?thesis by simp
  next
    case (Suc j)
    with Cons.prems have "j < length xs" by simp
    from Cons.IH [OF this, of "Suc i" "t + 2"] Suc show ?thesis by simp
  qed
qed

text \<open>A found index lies in the list and its element passes the test.\<close>

lemma findIndex_found:
  "0 \<le> findIndex p xs \<Longrightarrow> nat (findIndex p xs) < length xs \<and> p (xs ! nat (findIndex p xs))"
proof (induction xs)
  case Nil
  then show ?case by simp
next
  case (Cons x xs)
  show ?case
  proof (cases "p x")
    case True
    then show ?thesis by simp
  next
    case False
    with Cons.prems have nn: "0 \<le> findIndex p xs"
      by (simp add: Let_def split: if_splits)
    from Cons.IH [OF nn] False nn show ?thesis
      by (simp add: Let_def nat_add_distrib)
  qed
qed

text \<open>When the version ids of the document are distinct, the previous version is another version.\<close>

lemma previous_differs:
  assumes d: "distinct (map v_id (versions doc))"
    and p: "previousVersionId doc vid = Some prevId"
  shows "prevId \<noteq> vid"
proof -
  let ?vs = "versions_sorted doc"
  let ?i = "currentVersionIndex doc vid"
  have dv: "distinct (map v_id ?vs)"
    using d by (simp add: versions_sorted_def distinct_map)
  from p have nn: "0 \<le> ?i" and lt: "nat (?i + 1) < length ?vs"
    and pv: "prevId = v_id (?vs ! nat (?i + 1))"
    by (auto simp: previousVersionId_def Let_def split: if_splits)
  from findIndex_found [of "\<lambda>v. v_id v = vid" ?vs] nn
  have cur: "nat ?i < length ?vs" "v_id (?vs ! nat ?i) = vid"
    by (simp_all add: currentVersionIndex_def)
  have ne: "nat ?i \<noteq> nat (?i + 1)" using nn by simp
  have "map v_id ?vs ! nat ?i \<noteq> map v_id ?vs ! nat (?i + 1)"
    using dv cur(1) lt ne by (simp add: nth_eq_iff_index_eq del: nth_map)
  then show ?thesis using cur lt pv by simp
qed

text \<open>Facts about the rewriting map, the carried batch and the store invariant.\<close>

lemma stamp_map_ids:
  "(\<And>a now. ann_id (f a now) = ann_id a) \<Longrightarrow>
   map ann_id (fst (stamp_map env p f xs t)) = map ann_id xs"
  by (induction xs arbitrary: t) (simp_all add: split_beta)

lemma stamp_map_set:
  "b \<in> set (fst (stamp_map env p f xs t)) \<Longrightarrow>
   (b \<in> set xs \<and> \<not> p b) \<or> (\<exists>a now. a \<in> set xs \<and> p a \<and> b = f a now)"
proof (induction xs arbitrary: t)
  case Nil
  then show ?case by simp
next
  case (Cons x xs)
  show ?case
  proof (cases "p x")
    case True
    with Cons.prems have "b = f x (nowIso_at env t) \<or> b \<in> set (fst (stamp_map env p f xs (Suc t)))"
      by (auto split: prod.splits)
    then show ?thesis
    proof
      assume "b = f x (nowIso_at env t)"
      with True show ?thesis by auto
    next
      assume "b \<in> set (fst (stamp_map env p f xs (Suc t)))"
      from Cons.IH [OF this] show ?thesis by auto
    qed
  next
    case False
    with Cons.prems have "b = x \<or> b \<in> set (fst (stamp_map env p f xs t))"
      by (auto split: prod.splits)
    then show ?thesis
    proof
      assume "b = x"
      with False show ?thesis by auto
    next
      assume "b \<in> set (fst (stamp_map env p f xs t))"
      from Cons.IH [OF this] show ?thesis by auto
    qed
  qed
qed

lemma carry_ids:
  "map ann_id (carry env vid xs i t) = map (\<lambda>k. genId_at env k ''a'') [i..<i + length xs]"
proof (induction xs arbitrary: i t)
  case Nil
  then show ?case by simp
next
  case (Cons x xs)
  have "[i..<i + length (x # xs)] = i # [Suc i..<Suc i + length xs]"
    by (simp add: upt_rec)
  with Cons.IH [of "Suc i" "t + 2"] show ?case by simp
qed

lemma carry_set:
  "b \<in> set (carry env vid xs i t) \<Longrightarrow> status b = NeedsRemap \<and> anchor b = Unanchored UserNeedsRemap"
  by (induction xs arbitrary: i t) auto

lemma find_Some_set: "find P xs = Some x \<Longrightarrow> x \<in> set xs \<and> P x"
  by (induction xs) (auto split: if_splits)

lemma distinct_ids_eq:
  "distinct (map ann_id xs) \<Longrightarrow> a \<in> set xs \<Longrightarrow> b \<in> set xs \<Longrightarrow> ann_id a = ann_id b \<Longrightarrow> a = b"
  by (auto simp: distinct_map dest: inj_onD)

lemma store_inv_update:
  assumes inv: "store_inv env st"
    and abv: "annotationsByVersion st' = (annotationsByVersion st)(vid \<mapsto> l')"
    and d: "distinct (map ann_id l')"
    and el: "\<forall>b\<in>set l'. anchor_invariant b \<and> (\<exists>k<idCalls st'. \<exists>p. ann_id b = genId_at env k p)"
    and mono: "idCalls st \<le> idCalls st'"
  shows "store_inv env st'"
  unfolding store_inv_def
proof (intro allI impI)
  fix v l
  assume l: "annotationsByVersion st' v = Some l"
  show "distinct (map ann_id l) \<and>
        (\<forall>a\<in>set l. anchor_invariant a \<and> (\<exists>k<idCalls st'. \<exists>p. ann_id a = genId_at env k p))"
  proof (cases "v = vid")
    case True
    with l abv have "l = l'" by simp
    with d el show ?thesis by simp
  next
    case False
    with l abv have old: "annotationsByVersion st v = Some l" by simp
    with inv have d': "distinct (map ann_id l)"
      and el': "\<forall>a\<in>set l. anchor_invariant a \<and> (\<exists>k<idCalls st. \<exists>p. ann_id a = genId_at env k p)"
      unfolding store_inv_def by blast+
    from el' mono have "\<forall>a\<in>set l. anchor_invariant a \<and> (\<exists>k<idCalls st'. \<exists>p. ann_id a = genId_at env k p)"
      by (meson less_le_trans)
    with d' show ?thesis by simp
  qed
qed

lemma store_inv_same:
  "store_inv env st \<Longrightarrow> annotationsByVersion st' = annotationsByVersion st \<Longrightarrow>
   idCalls st \<le> idCalls st' \<Longrightarrow> store_inv env st'"
  unfolding store_inv_def by (metis less_le_trans)

lemma store_inv_bucket:
  assumes inv: "store_inv env st"
  shows "distinct (map ann_id (bucket st v))"
    and "\<forall>a\<in>set (bucket st v). anchor_invariant a \<and> (\<exists>k<idCalls st. \<exists>p. ann_id a = genId_at env k p)"
proof -
  show "distinct (map ann_id (bucket st v))"
  proof (cases "annotationsByVersion st v")
    case None
    then show ?thesis by (simp add: bucket_def)
  next
    case (Some l)
    with inv show ?thesis by (simp add: bucket_def store_inv_def)
  qed
  show "\<forall>a\<in>set (bucket st v). anchor_invariant a \<and> (\<exists>k<idCalls st. \<exists>p. ann_id a = genId_at env k p)"
  proof (cases "annotationsByVersion st v")
    case None
    then show ?thesis by (simp add: bucket_def)
  next
    case (Some l)
    with inv show ?thesis by (simp add: bucket_def store_inv_def)
  qed
qed

text \<open>Every operation keeps the store invariant.\<close>

lemma createAnnotation_inv:
  assumes inv: "store_inv env st" and u: "uniqueIds env"
  shows "store_inv env (createAnnotation env doc st)"
proof (cases "mode st = viewer \<or> selectionDraft st = None")
  case True
  then show ?thesis using inv by (auto simp: createAnnotation_def)
next
  case False
  then obtain draft where ed: "mode st \<noteq> viewer" and dr: "selectionDraft st = Some draft" by auto
  let ?id = "genId_at env (idCalls st) ''a''"
  let ?st' = "createAnnotation env doc st"
  obtain newAnn where
    abv: "annotationsByVersion ?st' = (annotationsByVersion st)(versionId st \<mapsto> newAnn # bucket st (versionId st))"
    and nid: "ann_id newAnn = ?id" and ns: "status newAnn = Open"
    and na: "isTextRangeAnchor (anchor newAnn)"
    and ic: "idCalls ?st' = idCalls st + 2"
    using ed dr by (simp add: createAnnotation_def Let_def clearSelectionUI_def)
  from store_inv_bucket [OF inv, of "versionId st"]
  have d: "distinct (map ann_id (bucket st (versionId st)))"
    and el: "\<forall>a\<in>set (bucket st (versionId st)).
        anchor_invariant a \<and> (\<exists>k<idCalls st. \<exists>p. ann_id a = genId_at env k p)"
    by simp_all
  have fresh: "?id \<notin> ann_id ` set (bucket st (versionId st))"
  proof
    assume "?id \<in> ann_id ` set (bucket st (versionId st))"
    then obtain a where "a \<in> set (bucket st (versionId st))" and "ann_id a = ?id" by auto
    with el obtain k p where "k < idCalls st" and "genId_at env k p = ?id" by metis
    with u show False unfolding uniqueIds_def by (metis less_irrefl)
  qed
  have ok: "anchor_invariant newAnn"
    using ns na by (cases "anchor newAnn") (simp_all add: anchor_invariant_def)
  show ?thesis
  proof (rule store_inv_update [OF inv abv])
    show "distinct (map ann_id (newAnn # bucket st (versionId st)))"
      using d fresh nid by simp
    show "\<forall>b\<in>set (newAnn # bucket st (versionId st)).
       anchor_invariant b \<and> (\<exists>k<idCalls ?st'. \<exists>p. ann_id b = genId_at env k p)"
    proof
      fix b assume "b \<in> set (newAnn # bucket st (versionId st))"
      then consider "b = newAnn" | "b \<in> set (bucket st (versionId st))" by auto
      then show "anchor_invariant b \<and> (\<exists>k<idCalls ?st'. \<exists>p. ann_id b = genId_at env k p)"
      proof cases
        case 1
        have "idCalls st < idCalls ?st'" using ic by simp
        with 1 ok nid show ?thesis by blast
      next
        case 2
        with el obtain k p where "anchor_invariant b" "k < idCalls st" "ann_id b = genId_at env k p"
          by blast
        moreover have "idCalls st \<le> idCalls ?st'" using ic by simp
        ultimately show ?thesis by (metis less_le_trans)
      qed
    qed
    show "idCalls st \<le> idCalls ?st'" using ic by simp
  qed
qed

lemma stamp_update_inv:
  assumes inv: "store_inv env st"
    and abv: "annotationsByVersion st' =
       (annotationsByVersion st)(versionId st \<mapsto> fst (stamp_map env p f (bucket st (versionId st)) t))"
    and ids: "\<And>a now. ann_id (f a now) = ann_id a"
    and ok: "\<And>a now. a \<in> set (bucket st (versionId st)) \<Longrightarrow> p a \<Longrightarrow> anchor_invariant (f a now)"
    and mono: "idCalls st \<le> idCalls st'"
  shows "store_inv env st'"
proof (rule store_inv_update [OF inv abv])
  let ?cur = "bucket st (versionId st)"
  let ?next = "fst (stamp_map env p f ?cur t)"
  from store_inv_bucket [OF inv, of "versionId st"]
  have d: "distinct (map ann_id ?cur)"
    and el: "\<forall>a\<in>set ?cur. anchor_invariant a \<and> (\<exists>k<idCalls st. \<exists>p. ann_id a = genId_at env k p)"
    by simp_all
  have same: "map ann_id ?next = map ann_id ?cur"
    using ids by (rule stamp_map_ids)
  show "distinct (map ann_id ?next)" using d same by simp
  show "idCalls st \<le> idCalls st'" by (rule mono)
  show "\<forall>b\<in>set ?next. anchor_invariant b \<and> (\<exists>k<idCalls st'. \<exists>p. ann_id b = genId_at env k p)"
  proof
    fix b assume b: "b \<in> set ?next"
    from stamp_map_set [OF b]
    have inv_b: "anchor_invariant b"
    proof
      assume "b \<in> set ?cur \<and> \<not> p b"
      with el show ?thesis by blast
    next
      assume "\<exists>a now. a \<in> set ?cur \<and> p a \<and> b = f a now"
      with ok show ?thesis by blast
    qed
    from b have "ann_id b \<in> set (map ann_id ?next)" by simp
    with same have "ann_id b \<in> set (map ann_id ?cur)" by simp
    then obtain a where "a \<in> set ?cur" and "ann_id a = ann_id b" by auto
    with el obtain k q where "k < idCalls st" and "ann_id b = genId_at env k q" by metis
    with mono have "\<exists>k<idCalls st'. \<exists>p. ann_id b = genId_at env k p"
      by (metis less_le_trans)
    with inv_b show "anchor_invariant b \<and> (\<exists>k<idCalls st'. \<exists>p. ann_id b = genId_at env k p)" ..
  qed
qed

lemma toggleResolved_inv:
  assumes inv: "store_inv env st"
  shows "store_inv env (toggleResolved env i st)"
proof (cases "mode st = viewer")
  case True
  then show ?thesis using inv by (simp add: toggleResolved_def)
next
  case ed: False
  show ?thesis
  proof (cases "find (\<lambda>a. ann_id a = i) (currentAnnotations st)")
    case None
    then show ?thesis using inv ed by (simp add: toggleResolved_def)
  next
    case (Some ann)
    show ?thesis
    proof (cases "status ann = NeedsRemap")
      case True
      then show ?thesis using inv ed Some by (simp add: toggleResolved_def)
    next
      case nr: False
      let ?next = "if status ann = Resolved then Open else Resolved"
      let ?f = "\<lambda>a now. a\<lparr>status := ?next, updatedAt := now\<rparr>"
      from find_Some_set [OF Some] have ann: "ann \<in> set (bucket st (versionId st))" "ann_id ann = i"
        by (simp_all add: currentAnnotations_def)
      from store_inv_bucket [OF inv, of "versionId st"]
      have d: "distinct (map ann_id (bucket st (versionId st)))"
        and el: "\<forall>a\<in>set (bucket st (versionId st)). anchor_invariant a"
        by simp_all
      show ?thesis
      proof (rule stamp_update_inv [OF inv, where p = "\<lambda>a. ann_id a = i" and f = ?f and t = "Suc (clockCalls st)"])
        show "annotationsByVersion (toggleResolved env i st) =
          (annotationsByVersion st)(versionId st \<mapsto>
             fst (stamp_map env (\<lambda>a. ann_id a = i) ?f (bucket st (versionId st)) (Suc (clockCalls st))))"
          using ed Some nr by (simp add: toggleResolved_def Let_def split_beta)
        show "idCalls st \<le> idCalls (toggleResolved env i st)"
          using ed Some nr by (simp add: toggleResolved_def Let_def split_beta)
        show "\<And>a now. ann_id (?f a now) = ann_id a" by simp
        fix a now
        assume a: "a \<in> set (bucket st (versionId st))" and "ann_id a = i"
        with ann d have "a = ann" by (auto intro: distinct_ids_eq)
        with el ann nr have "\<not> isUnanchoredAnchor (anchor a)" "status a \<noteq> NeedsRemap"
          by (auto simp: anchor_invariant_def)
        then show "anchor_invariant (?f a now)"
          by (simp add: anchor_invariant_def)
      qed
    qed
  qed
qed

lemma changeAssignee_inv:
  assumes inv: "store_inv env st"
  shows "store_inv env (changeAssignee env i u st)"
proof (cases "mode st = viewer \<or> find (\<lambda>a. ann_id a = i) (currentAnnotations st) = None")
  case True
  then show ?thesis using inv by (auto simp: changeAssignee_def)
next
  case False
  then obtain ann where ed: "mode st \<noteq> viewer"
    and Some: "find (\<lambda>a. ann_id a = i) (currentAnnotations st) = Some ann" by auto
  let ?f = "\<lambda>a now. a\<lparr>assigneeId := u, updatedAt := now\<rparr>"
  from store_inv_bucket [OF inv, of "versionId st"]
  have el: "\<forall>a\<in>set (bucket st (versionId st)). anchor_invariant a" by simp
  show ?thesis
  proof (rule stamp_update_inv [OF inv, where p = "\<lambda>a. ann_id a = i" and f = ?f and t = "Suc (clockCalls st)"])
    show "annotationsByVersion (changeAssignee env i u st) =
      (annotationsByVersion st)(versionId st \<mapsto>
         fst (stamp_map env (\<lambda>a. ann_id a = i) ?f (bucket st (versionId st)) (Suc (clockCalls st))))"
      using ed Some by (simp add: changeAssignee_def Let_def split_beta)
    show "idCalls st \<le> idCalls (changeAssignee env i u st)"
      using ed Some by (simp add: changeAssignee_def Let_def split_beta)
    show "\<And>a now. ann_id (?f a now) = ann_id a" by simp
    fix a now
    assume "a \<in> set (bucket st (versionId st))"
    with el have "anchor_invariant a" by blast
    then show "anchor_invariant (?f a now)" by (simp add: anchor_invariant_def)
  qed
qed

lemma remapIssue_inv:
  assumes inv: "store_inv env st"
  shows "store_inv env (remapIssue env st)"
proof (cases "mode st \<noteq> viewer \<and> (\<exists>target draft ann. remapTargetId st = Some target \<and> target \<noteq> [] \<and>
          selectionDraft st = Some draft \<and> find (\<lambda>a. ann_id a = target) (currentAnnotations st) = Some ann)")
  case False
  then have "remapIssue env st = st"
    by (auto simp: remapIssue_def split: option.splits)
  then show ?thesis using inv by simp
next
  case True
  then obtain target draft ann where ed: "mode st \<noteq> viewer"
    and tg: "remapTargetId st = Some target" "target \<noteq> []"
    and dr: "selectionDraft st = Some draft"
    and Some: "find (\<lambda>a. ann_id a = target) (currentAnnotations st) = Some ann" by auto
  let ?f = "\<lambda>a now. a\<lparr>status := Open, quote := draft_quote draft,
              anchor := TextRange (sectionId draft) (startLocal draft) (endLocal draft),
              updatedAt := now\<rparr>"
  show ?thesis
  proof (rule stamp_update_inv [OF inv, where p = "\<lambda>a. ann_id a = target" and f = ?f and t = "Suc (clockCalls st)"])
    show "annotationsByVersion (remapIssue env st) =
      (annotationsByVersion st)(versionId st \<mapsto>
         fst (stamp_map env (\<lambda>a. ann_id a = target) ?f (bucket st (versionId st)) (Suc (clockCalls st))))"
      using ed tg dr Some by (simp add: remapIssue_def Let_def split_beta clearSelectionUI_def)
    show "idCalls st \<le> idCalls (remapIssue env st)"
      using ed tg dr Some by (simp add: remapIssue_def Let_def split_beta clearSelectionUI_def)
    show "\<And>a now. ann_id (?f a now) = ann_id a" by simp
    show "\<And>a now. anchor_invariant (?f a now)" by (simp add: anchor_invariant_def)
  qed
qed

lemma carryOverFromPrevious_inv:
  assumes inv: "store_inv env st" and u: "uniqueIds env"
  shows "store_inv env (carryOverFromPrevious env doc st)"
proof (cases "mode st \<noteq> viewer \<and> (\<exists>prevId. previousVersionId doc (versionId st) = Some prevId \<and> prevId \<noteq> [] \<and>
          filter (\<lambda>a. status a \<noteq> Resolved) (bucket st prevId) \<noteq> [])")
  case False
  then have "carryOverFromPrevious env doc st = st"
    by (auto simp: carryOverFromPrevious_def Let_def split: option.splits)
  then show ?thesis using inv by simp
next
  case True
  then obtain prevId where ed: "mode st \<noteq> viewer"
    and p: "previousVersionId doc (versionId st) = Some prevId" "prevId \<noteq> []"
    and ne: "filter (\<lambda>a. status a \<noteq> Resolved) (bucket st prevId) \<noteq> []" by auto
  let ?toCarry = "filter (\<lambda>a. status a \<noteq> Resolved) (bucket st prevId)"
  let ?n = "length ?toCarry"
  let ?carried = "carry env (versionId st) ?toCarry (idCalls st) (clockCalls st)"
  let ?cur = "bucket st (versionId st)"
  let ?st' = "carryOverFromPrevious env doc st"
  have abv: "annotationsByVersion ?st' = (annotationsByVersion st)(versionId st \<mapsto> ?carried @ ?cur)"
    and ic: "idCalls ?st' = idCalls st + ?n + 1"
    using ed p ne by (simp_all add: carryOverFromPrevious_def Let_def)
  from store_inv_bucket [OF inv, of "versionId st"]
  have d: "distinct (map ann_id ?cur)"
    and el: "\<forall>a\<in>set ?cur. anchor_invariant a \<and> (\<exists>k<idCalls st. \<exists>p. ann_id a = genId_at env k p)"
    by simp_all
  have inj: "inj_on (\<lambda>k. genId_at env k ''a'') (set [idCalls st..<idCalls st + ?n])"
    using u unfolding uniqueIds_def inj_on_def by blast
  have dc: "distinct (map ann_id ?carried)"
    by (simp only: carry_ids distinct_map distinct_upt inj)
  have disj: "set (map ann_id ?carried) \<inter> set (map ann_id ?cur) = {}"
  proof (rule ccontr)
    assume "set (map ann_id ?carried) \<inter> set (map ann_id ?cur) \<noteq> {}"
    then obtain x where x1: "x \<in> set (map ann_id ?carried)" and x2: "x \<in> set (map ann_id ?cur)"
      by blast
    from x1 obtain k where k: "idCalls st \<le> k" "x = genId_at env k ''a''"
      by (auto simp: carry_ids)
    from x2 obtain a where "a \<in> set ?cur" "ann_id a = x" by auto
    with el obtain k' q where "k' < idCalls st" "x = genId_at env k' q" by metis
    with k u show False unfolding uniqueIds_def by (metis not_less)
  qed
  show ?thesis
  proof (rule store_inv_update [OF inv abv])
    show "distinct (map ann_id (?carried @ ?cur))"
      using dc d disj by simp
    show "idCalls st \<le> idCalls ?st'" using ic by simp
    show "\<forall>b\<in>set (?carried @ ?cur).
        anchor_invariant b \<and> (\<exists>k<idCalls ?st'. \<exists>p. ann_id b = genId_at env k p)"
    proof
      fix b assume "b \<in> set (?carried @ ?cur)"
      then consider "b \<in> set ?carried" | "b \<in> set ?cur" by auto
      then show "anchor_invariant b \<and> (\<exists>k<idCalls ?st'. \<exists>p. ann_id b = genId_at env k p)"
      proof cases
        case 1
        from carry_set [OF 1] have "anchor_invariant b" by (simp add: anchor_invariant_def)
        moreover from 1 have "ann_id b \<in> set (map ann_id ?carried)" by simp
        then obtain k where "k < idCalls st + ?n" "ann_id b = genId_at env k ''a''"
          by (auto simp: carry_ids)
        then have "\<exists>k<idCalls ?st'. \<exists>p. ann_id b = genId_at env k p"
          using ic by (metis less_SucI Suc_eq_plus1)
        ultimately show ?thesis ..
      next
        case 2
        with el obtain k q where "anchor_invariant b" "k < idCalls st" "ann_id b = genId_at env k q"
          by blast
        moreover have "idCalls st \<le> idCalls ?st'" using ic by simp
        ultimately show ?thesis by (metis less_le_trans)
      qed
    qed
  qed
qed

lemma step_inv:
  assumes inv: "store_inv env st" and u: "uniqueIds env"
  shows "store_inv env (step env doc st ev)"
proof (cases ev)
  case CreateAnnotation
  then show ?thesis using createAnnotation_inv [OF inv u] by simp
next
  case (ToggleResolved i)
  then show ?thesis using toggleResolved_inv [OF inv] by simp
next
  case (ChangeAssignee i usr)
  then show ?thesis using changeAssignee_inv [OF inv] by simp
next
  case RemapIssue
  then show ?thesis using remapIssue_inv [OF inv] by simp
next
  case CarryOverFromPrevious
  then show ?thesis using carryOverFromPrevious_inv [OF inv u] by simp
next
  case (SelectVersion v)
  then show ?thesis using inv by (auto intro: store_inv_same simp: selectVersion_def)
next
  case (SelectMode m)
  then show ?thesis using inv by (auto intro: store_inv_same simp: selectMode_def)
next
  case (SetMode m)
  then show ?thesis using inv by (auto intro: store_inv_same simp: setMode_def)
next
  case (MouseUp d)
  then show ?thesis using inv
    by (auto intro: store_inv_same simp: handleMouseUp_def split: option.splits)
next
  case OpenCreateModal
  then show ?thesis using inv
    by (auto intro: store_inv_same simp: openCreateModal_def split: option.splits)
next
  case (StartRemap i)
  then show ?thesis using inv by (auto intro: store_inv_same simp: startRemap_def)
next
  case CancelRemap
  then show ?thesis using inv by (auto intro: store_inv_same simp: cancelRemap_def)
next
  case (ClickHighlight i)
  then show ?thesis using inv by (auto intro: store_inv_same simp: handleClickHighlight_def)
next
  case (SetCategory c)
  then show ?thesis using inv by (auto intro: store_inv_same)
next
  case (SetSeverity s)
  then show ?thesis using inv by (auto intro: store_inv_same)
next
  case (SetAssigneeId a)
  then show ?thesis using inv by (auto intro: store_inv_same)
next
  case (SetComment c)
  then show ?thesis using inv by (auto intro: store_inv_same)
qed

lemma run_inv:
  "store_inv env st \<Longrightarrow> uniqueIds env \<Longrightarrow> store_inv env (run env doc st evs)"
  unfolding run_def by (induction evs arbitrary: st) (simp_all add: step_inv)

lemma initialState_inv: "store_inv env (initialState env v0)"
  by (simp add: store_inv_def initialState_def)

text \<open>The sample data, unfolded.\<close>

lemmas sample_defs = sample_env_def sample_doc_def sample_ann_def sample_draft_def sample_state_def
  sample_session_def sample_bucket_def sample_payload_def mixed_state_def
  two_open_state_def remap_state_def

lemma sample_previous: "previousVersionId sample_doc ''v2'' = Some ''v1''"
  by (simp add: previousVersionId_def currentVersionIndex_def versions_sorted_def sample_defs)

lemma sample_uniqueIds: "uniqueIds sample_env"
  by (simp add: uniqueIds_def sample_env_def)

lemma mixed_state_current: "currentAnnotations (mixed_state m ''v1'') = sample_bucket Open Resolved NeedsRemap"
  by (simp add: currentAnnotations_def bucket_def mixed_state_def sample_state_def)

lemma mixed_state_source:
  "filter (\<lambda>a. status a \<noteq> Resolved) (bucket (mixed_state m ''v2'') ''v1'') =
     [sample_ann ''u'' ''v1'' Open (TextRange ''s2'' 10 19),
      sample_ann ''uuu'' ''v1'' NeedsRemap (Unanchored NotFoundInVersion)]"
  by (simp add: bucket_def sample_defs)

text \<open>The store invariant holds along every session, and it contains \<open>ids_drawn\<close>.\<close>

lemma store_inv_ids_drawn: "store_inv env st \<Longrightarrow> ids_drawn env st"
  unfolding store_inv_def ids_drawn_def by blast

lemma session_ids_drawn:
  "uniqueIds env \<Longrightarrow> ids_drawn env (run env doc (initialState env initialVersionId) evs)"
  by (intro store_inv_ids_drawn run_inv initialState_inv)

text \<open>With a generator that never repeats itself, the ids of a carried batch are new.\<close>

lemma carry_ids_distinct:
  assumes u: "uniqueIds env"
  shows "distinct (map ann_id (carry env vid xs i t))"
proof -
  have "inj_on (\<lambda>k. genId_at env k ''a'') (set [i..<i + length xs])"
    using u unfolding uniqueIds_def inj_on_def by blast
  then show ?thesis by (simp only: carry_ids distinct_map distinct_upt)
qed

lemma carry_ids_fresh:
  assumes u: "uniqueIds env" and dr: "ids_drawn env st" and le: "idCalls st \<le> i"
    and l: "annotationsByVersion st v = Some l"
  shows "set (map ann_id (carry env vid xs i t)) \<inter> set (map ann_id l) = {}"
proof (rule ccontr)
  assume "set (map ann_id (carry env vid xs i t)) \<inter> set (map ann_id l) \<noteq> {}"
  then obtain x where x1: "x \<in> set (map ann_id (carry env vid xs i t))"
    and x2: "x \<in> set (map ann_id l)" by blast
  from x1 obtain k where k: "i \<le> k" "x = genId_at env k ''a''"
    by (auto simp: carry_ids)
  from x2 obtain a where a: "a \<in> set l" "ann_id a = x" by auto
  with dr l obtain k' q where "k' < idCalls st" "x = genId_at env k' q"
    unfolding ids_drawn_def by metis
  with k le u show False unfolding uniqueIds_def by (metis not_less less_le_trans)
qed

lemma mixed_state_ids_drawn: "ids_drawn sample_env (mixed_state m v)"
proof -
  have "\<exists>k<5. \<exists>p. ann_id a = genId_at sample_env k p"
    if "a \<in> set (sample_bucket Open Resolved NeedsRemap)" for a
  proof -
    from that consider "ann_id a = ''u''" | "ann_id a = ''uu''" | "ann_id a = ''uuu''"
      by (auto simp: sample_bucket_def sample_ann_def)
    then show ?thesis
    proof cases
      case 1
      then have "(0::nat) < 5 \<and> ann_id a = genId_at sample_env 0 ''a''" by (simp add: sample_env_def)
      then show ?thesis by blast
    next
      case 2
      then have "(1::nat) < 5 \<and> ann_id a = genId_at sample_env 1 ''a''" by (simp add: sample_env_def)
      then show ?thesis by blast
    next
      case 3
      then have "(2::nat) < 5 \<and> ann_id a = genId_at sample_env 2 ''a''"
        by (simp add: sample_env_def numeral_2_eq_2)
      then show ?thesis by blast
    qed
  qed
  then show ?thesis
    by (auto simp: ids_drawn_def mixed_state_def sample_state_def split: if_splits)
qed

section \<open>The highlight renderer on overlapping spans\<close>

text \<open>
  Claim C1 (anchor clamp safety): for every paragraph text and every list of highlight
  spans, the values of the rendered fragments, concatenated in order, are the paragraph
  text. The renderer does not keep this for a span nested in an earlier one: on the text
  \<open>0123456789\<close> with the spans \<open>[0,10)\<close> and \<open>[2,4)\<close> the first mark shows the whole text,
  the second mark shows \<open>23\<close> again and moves the cursor back to 4, and the closing plain
  fragment repeats \<open>456789\<close>.
\<close>

theorem C1_nested_span_duplicates_text:
  "rendered_text
     (renderHighlightedParagraph ''0123456789''
        [\<lparr>h_id = ''A'', h_start = 0, h_end = 10, h_status = Open\<rparr>,
         \<lparr>h_id = ''B'', h_start = 2, h_end = 4, h_status = Resolved\<rparr>])
   = ''012345678923456789''"
  by code_simp

text \<open>
  Claim C2 (no duplicate coverage): no character index lies in two highlighted fragments,
  and the spans \<open>[0,5)\<close> and \<open>[3,8)\<close> render as a mark for \<open>[0,5)\<close>, a mark for \<open>[5,8)\<close> and
  the plain remainder. The renderer emits the second mark for the whole of \<open>[3,8)\<close>, so
  that the indices 3 and 4 lie in both marks.
\<close>

theorem C2_overlapping_marks_share_indices:
  "renderHighlightedParagraph ''0123456789''
     [\<lparr>h_id = ''A'', h_start = 0, h_end = 5, h_status = Open\<rparr>,
      \<lparr>h_id = ''B'', h_start = 3, h_end = 8, h_status = Open\<rparr>]
   = Fragments
       [MarkPart ''01234'' (MKey 0 5 ''A'') ''A'' Open,
        MarkPart ''34567'' (MKey 3 8 ''B'') ''B'' Open,
        TextPart ''89'' (TKeyEnd 8)]"
  by code_simp

section \<open>Resolving and reopening\<close>

text \<open>
  Claim C3: for an annotation \<open>a\<close> of the current version's bucket (ids being unique in the
  bucket), \<open>toggleResolved\<close> on its id leaves the whole state unchanged when the status of
  \<open>a\<close> is \<open>NeedsRemap\<close>. Otherwise, the mode being editor, it flips the status of \<open>a\<close> between
  \<open>Open\<close> and \<open>Resolved\<close>, stamps \<open>updatedAt\<close> with a reading of the clock, leaves every other
  annotation and every other bucket as it was, and puts one entry at the head of the
  activity log: resolved when the new status is \<open>Resolved\<close>, reopened when it is \<open>Open\<close>.
  In viewer mode, where every mutating operation is disabled, \<open>toggleResolved\<close> leaves the
  whole state unchanged for every id.
\<close>

theorem C3_toggleResolved:
  assumes a: "a \<in> set (currentAnnotations st)"
    and d: "distinct (map ann_id (currentAnnotations st))"
  shows
   "(status a = NeedsRemap \<longrightarrow> toggleResolved env (ann_id a) st = st) \<and>
    (\<forall>i. mode st = viewer \<longrightarrow> toggleResolved env i st = st) \<and>
    (mode st = editor \<and> status a \<noteq> NeedsRemap \<longrightarrow>
       currentAnnotations (toggleResolved env (ann_id a) st) =
         map (\<lambda>b. if b = a
                   then a\<lparr>status := (if status a = Resolved then Open else Resolved),
                          updatedAt := nowIso_at env (Suc (clockCalls st))\<rparr>
                   else b)
             (currentAnnotations st) \<and>
       versionId (toggleResolved env (ann_id a) st) = versionId st \<and>
       (\<forall>v. v \<noteq> versionId st \<longrightarrow>
            annotationsByVersion (toggleResolved env (ann_id a) st) v = annotationsByVersion st v) \<and>
       activity (toggleResolved env (ann_id a) st) =
         \<lparr>item_id = genId_at env (idCalls st) ''ev'',
          item_at = nowIso_at env (clockCalls st),
          type_meta = (if status a = Resolved then ANNOTATION_REOPENED (ann_id a) (quote a)
                       else ANNOTATION_RESOLVED (ann_id a) (quote a))\<rparr>
         # activity st)"
proof -
  have f: "find (\<lambda>b. ann_id b = ann_id a) (currentAnnotations st) = Some a"
    using find_distinct_id [OF d a] .
  have s: "\<And>f. stamp_map env (\<lambda>b. ann_id b = ann_id a) f (bucket st (versionId st)) (Suc (clockCalls st)) =
      (map (\<lambda>b. if b = a then f a (nowIso_at env (Suc (clockCalls st))) else b) (bucket st (versionId st)),
       Suc (Suc (clockCalls st)))"
    using stamp_map_single [OF d a] by (simp add: currentAnnotations_def)
  have nr: "status a = NeedsRemap \<longrightarrow> toggleResolved env (ann_id a) st = st"
    using f by (simp add: toggleResolved_def)
  have vw: "\<forall>i. mode st = viewer \<longrightarrow> toggleResolved env i st = st"
    by (simp add: toggleResolved_def)
  have ed: "mode st = editor \<and> status a \<noteq> NeedsRemap \<longrightarrow>
       currentAnnotations (toggleResolved env (ann_id a) st) =
         map (\<lambda>b. if b = a
                   then a\<lparr>status := (if status a = Resolved then Open else Resolved),
                          updatedAt := nowIso_at env (Suc (clockCalls st))\<rparr>
                   else b)
             (currentAnnotations st) \<and>
       versionId (toggleResolved env (ann_id a) st) = versionId st \<and>
       (\<forall>v. v \<noteq> versionId st \<longrightarrow>
            annotationsByVersion (toggleResolved env (ann_id a) st) v = annotationsByVersion st v) \<and>
       activity (toggleResolved env (ann_id a) st) =
         \<lparr>item_id = genId_at env (idCalls st) ''ev'',
          item_at = nowIso_at env (clockCalls st),
          type_meta = (if status a = Resolved then ANNOTATION_REOPENED (ann_id a) (quote a)
                       else ANNOTATION_RESOLVED (ann_id a) (quote a))\<rparr>
         # activity st"
    using f
    by (simp add: toggleResolved_def s [unfolded bucket_def] currentAnnotations_def bucket_def)
  from nr vw ed show ?thesis by blast
qed

section \<open>The invariant of status and anchor\<close>


section \<open>Carry-over\<close>

text \<open>
  Claim C5: carry-over is a no-op when there is no previous version (none, or one of
  empty id, which the test for a previous version takes for none) or when the previous
  version's bucket holds no annotation that is not \<open>Resolved\<close>. With a previous version
  whose bucket holds \<open>n > 0\<close> annotations that are not \<open>Resolved\<close>, the mode being editor, it
  puts \<open>n\<close> new annotations in front of the current version's bucket, the \<open>k\<close>-th of them
  with the id drawn for it, the category, severity, quote, comment and assignee of the
  \<open>k\<close>-th such source annotation, status \<open>NeedsRemap\<close> and anchor \<open>Unanchored UserNeedsRemap\<close>;
  it leaves the other buckets as they were and puts one carried-over entry of count \<open>n\<close> at
  the head of the activity log. The ids are new: the generator never repeating an id and
  every id of the store having been drawn from it, the \<open>n\<close> ids differ from one another
  and from the id of every annotation of every bucket. In viewer mode, where every
  mutating operation is disabled, carry-over leaves the whole state unchanged.
\<close>

theorem C5_carryOver:
  "(previousVersionId doc (versionId st) = None \<or> previousVersionId doc (versionId st) = Some []
      \<longrightarrow> carryOverFromPrevious env doc st = st) \<and>
   (mode st = viewer \<longrightarrow> carryOverFromPrevious env doc st = st) \<and>
   (\<forall>prevId. previousVersionId doc (versionId st) = Some prevId \<longrightarrow>
      (filter (\<lambda>a. status a \<noteq> Resolved) (bucket st prevId) = [] \<longrightarrow>
         carryOverFromPrevious env doc st = st) \<and>
      (mode st = editor \<and> prevId \<noteq> [] \<and> filter (\<lambda>a. status a \<noteq> Resolved) (bucket st prevId) \<noteq> [] \<longrightarrow>
         (let toCarry = filter (\<lambda>a. status a \<noteq> Resolved) (bucket st prevId);
              n = length toCarry;
              st' = carryOverFromPrevious env doc st
          in length (bucket st' (versionId st)) = n + length (bucket st (versionId st)) \<and>
             drop n (bucket st' (versionId st)) = bucket st (versionId st) \<and>
             (\<forall>k<n. ann_id (bucket st' (versionId st) ! k) = genId_at env (idCalls st + k) ''a'' \<and>
                    ann_versionId (bucket st' (versionId st) ! k) = versionId st \<and>
                    category (bucket st' (versionId st) ! k) = category (toCarry ! k) \<and>
                    severity (bucket st' (versionId st) ! k) = severity (toCarry ! k) \<and>
                    quote (bucket st' (versionId st) ! k) = quote (toCarry ! k) \<and>
                    comment (bucket st' (versionId st) ! k) = comment (toCarry ! k) \<and>
                    assigneeId (bucket st' (versionId st) ! k) = assigneeId (toCarry ! k) \<and>
                    status (bucket st' (versionId st) ! k) = NeedsRemap \<and>
                    anchor (bucket st' (versionId st) ! k) = Unanchored UserNeedsRemap) \<and>
             (uniqueIds env \<and> ids_drawn env st \<longrightarrow>
                distinct (map ann_id (take n (bucket st' (versionId st)))) \<and>
                (\<forall>v l. annotationsByVersion st v = Some l \<longrightarrow>
                   set (map ann_id (take n (bucket st' (versionId st)))) \<inter> set (map ann_id l) = {})) \<and>
             versionId st' = versionId st \<and>
             (\<forall>v. v \<noteq> versionId st \<longrightarrow> annotationsByVersion st' v = annotationsByVersion st v) \<and>
             activity st' =
               \<lparr>item_id = genId_at env (idCalls st + n) ''ev'',
                item_at = nowIso_at env (clockCalls st + 2 * n),
                type_meta = ANNOTATIONS_CARRIED_OVER prevId (versionId st) n\<rparr>
               # activity st)))"
proof (intro conjI allI impI)
  assume "previousVersionId doc (versionId st) = None \<or> previousVersionId doc (versionId st) = Some []"
  then show "carryOverFromPrevious env doc st = st"
    by (auto simp: carryOverFromPrevious_def)
next
  assume "mode st = viewer"
  then show "carryOverFromPrevious env doc st = st"
    by (simp add: carryOverFromPrevious_def)
next
  fix prevId
  assume "previousVersionId doc (versionId st) = Some prevId"
    and "filter (\<lambda>a. status a \<noteq> Resolved) (bucket st prevId) = []"
  then show "carryOverFromPrevious env doc st = st"
    by (simp add: carryOverFromPrevious_def Let_def)
next
  fix prevId
  let ?toCarry = "filter (\<lambda>a. status a \<noteq> Resolved) (bucket st prevId)"
  let ?n = "length ?toCarry"
  let ?carried = "carry env (versionId st) ?toCarry (idCalls st) (clockCalls st)"
  assume p: "previousVersionId doc (versionId st) = Some prevId"
    and h: "mode st = editor \<and> prevId \<noteq> [] \<and> ?toCarry \<noteq> []"
  have eq: "carryOverFromPrevious env doc st =
      st\<lparr>annotationsByVersion := (annotationsByVersion st)(versionId st \<mapsto> ?carried @ bucket st (versionId st)),
         activity :=
           \<lparr>item_id = genId_at env (idCalls st + ?n) ''ev'',
            item_at = nowIso_at env (clockCalls st + 2 * ?n),
            type_meta = ANNOTATIONS_CARRIED_OVER prevId (versionId st) ?n\<rparr>
           # activity st,
         idCalls := idCalls st + ?n + 1,
         clockCalls := clockCalls st + 2 * ?n + 1\<rparr>"
    using p h by (simp add: carryOverFromPrevious_def Let_def carry_length)
  have b: "bucket (carryOverFromPrevious env doc st) (versionId st) = ?carried @ bucket st (versionId st)"
    by (simp add: eq bucket_def)
  have tk: "take ?n (?carried @ bucket st (versionId st)) = ?carried"
    by (simp add: carry_length)
  have new: "uniqueIds env \<and> ids_drawn env st \<longrightarrow>
      distinct (map ann_id ?carried) \<and>
      (\<forall>v l. annotationsByVersion st v = Some l \<longrightarrow>
         set (map ann_id ?carried) \<inter> set (map ann_id l) = {})"
    using carry_ids_distinct [of env "versionId st" ?toCarry "idCalls st" "clockCalls st"]
      carry_ids_fresh [of env st "idCalls st" _ _ "versionId st" ?toCarry "clockCalls st"]
    by blast
  show "let toCarry = ?toCarry; n = length toCarry; st' = carryOverFromPrevious env doc st
        in length (bucket st' (versionId st)) = n + length (bucket st (versionId st)) \<and>
           drop n (bucket st' (versionId st)) = bucket st (versionId st) \<and>
           (\<forall>k<n. ann_id (bucket st' (versionId st) ! k) = genId_at env (idCalls st + k) ''a'' \<and>
                  ann_versionId (bucket st' (versionId st) ! k) = versionId st \<and>
                  category (bucket st' (versionId st) ! k) = category (toCarry ! k) \<and>
                  severity (bucket st' (versionId st) ! k) = severity (toCarry ! k) \<and>
                  quote (bucket st' (versionId st) ! k) = quote (toCarry ! k) \<and>
                  comment (bucket st' (versionId st) ! k) = comment (toCarry ! k) \<and>
                  assigneeId (bucket st' (versionId st) ! k) = assigneeId (toCarry ! k) \<and>
                  status (bucket st' (versionId st) ! k) = NeedsRemap \<and>
                  anchor (bucket st' (versionId st) ! k) = Unanchored UserNeedsRemap) \<and>
           (uniqueIds env \<and> ids_drawn env st \<longrightarrow>
              distinct (map ann_id (take n (bucket st' (versionId st)))) \<and>
              (\<forall>v l. annotationsByVersion st v = Some l \<longrightarrow>
                 set (map ann_id (take n (bucket st' (versionId st)))) \<inter> set (map ann_id l) = {})) \<and>
           versionId st' = versionId st \<and>
           (\<forall>v. v \<noteq> versionId st \<longrightarrow> annotationsByVersion st' v = annotationsByVersion st v) \<and>
           activity st' =
             \<lparr>item_id = genId_at env (idCalls st + n) ''ev'',
              item_at = nowIso_at env (clockCalls st + 2 * n),
              type_meta = ANNOTATIONS_CARRIED_OVER prevId (versionId st) n\<rparr>
             # activity st"
    unfolding Let_def b tk
    using new by (simp add: eq carry_length carry_nth nth_append)
qed

text \<open>
  Claim C6: carry-over leaves the annotation list of the source (previous) version exactly
  as it was, the version ids of the document being distinct: it copies, it does not move.
\<close>

theorem C6_carryOver_source_unchanged:
  assumes d: "distinct (map v_id (versions doc))"
    and p: "previousVersionId doc (versionId st) = Some prevId"
  shows "annotationsByVersion (carryOverFromPrevious env doc st) prevId = annotationsByVersion st prevId"
proof -
  have "prevId \<noteq> versionId st" using previous_differs [OF d p] .
  then show ?thesis
    using p by (simp add: carryOverFromPrevious_def Let_def)
qed

text \<open>
  Claim C10: the \<open>createdAt\<close> and \<open>updatedAt\<close> of every carried annotation are readings of
  the clock made during the carry-over itself (the \<open>k\<close>-th carried annotation takes the
  readings number \<open>2k\<close> and \<open>2k + 1\<close> of the operation), whatever the timestamps of its source.
\<close>

theorem C10_carried_timestamps:
  assumes ed: "mode st = editor"
    and p: "previousVersionId doc (versionId st) = Some prevId"
    and ne: "prevId \<noteq> []"
    and k: "k < length (filter (\<lambda>a. status a \<noteq> Resolved) (bucket st prevId))"
  shows
    "createdAt (bucket (carryOverFromPrevious env doc st) (versionId st) ! k)
       = nowIso_at env (clockCalls st + 2 * k) \<and>
     updatedAt (bucket (carryOverFromPrevious env doc st) (versionId st) ! k)
       = nowIso_at env (clockCalls st + 2 * k + 1) \<and>
     clockCalls st + 2 * k + 1 < clockCalls (carryOverFromPrevious env doc st)"
proof -
  let ?toCarry = "filter (\<lambda>a. status a \<noteq> Resolved) (bucket st prevId)"
  from k have nz: "length ?toCarry \<noteq> 0" by auto
  have b: "bucket (carryOverFromPrevious env doc st) (versionId st) =
      carry env (versionId st) ?toCarry (idCalls st) (clockCalls st) @ bucket st (versionId st)"
    using ed p ne nz by (simp add: carryOverFromPrevious_def Let_def bucket_def)
  have c: "clockCalls (carryOverFromPrevious env doc st) = clockCalls st + 2 * length ?toCarry + 1"
    using ed p ne nz by (simp add: carryOverFromPrevious_def Let_def)
  show ?thesis
    using k by (simp add: b c nth_append carry_length carry_nth)
qed

section \<open>Remap\<close>

text \<open>
  Claim C7: for an annotation \<open>a\<close> of the current version's bucket (ids being unique in the
  bucket, the id of \<open>a\<close> not empty) that is the remap target, and a selection draft, the
  mode being editor, \<open>remapIssue\<close> sets the status of \<open>a\<close> to \<open>Open\<close> whatever it was,
  replaces its quote by the draft's and its anchor by the \<open>TextRange\<close> of the draft's
  section and offsets, stamps \<open>updatedAt\<close>, leaves \<open>createdAt\<close>, every other annotation and
  every other bucket as they were, and puts a remapped entry at the head of the activity
  log. In viewer mode, where every mutating operation is disabled, \<open>remapIssue\<close> leaves
  the whole state unchanged.
\<close>

theorem C7_remapIssue:
  assumes a: "a \<in> set (currentAnnotations st)"
    and d: "distinct (map ann_id (currentAnnotations st))"
    and tgt: "remapTargetId st = Some (ann_id a)"
    and ne: "ann_id a \<noteq> []"
    and dr: "selectionDraft st = Some draft"
  shows
   "(mode st = viewer \<longrightarrow> remapIssue env st = st) \<and>
    (mode st = editor \<longrightarrow>
       currentAnnotations (remapIssue env st) =
         map (\<lambda>b. if b = a
                   then a\<lparr>status := Open,
                          quote := draft_quote draft,
                          anchor := TextRange (sectionId draft) (startLocal draft) (endLocal draft),
                          updatedAt := nowIso_at env (Suc (clockCalls st))\<rparr>
                   else b)
             (currentAnnotations st) \<and>
       createdAt (a\<lparr>status := Open,
                    quote := draft_quote draft,
                    anchor := TextRange (sectionId draft) (startLocal draft) (endLocal draft),
                    updatedAt := nowIso_at env (Suc (clockCalls st))\<rparr>) = createdAt a \<and>
       versionId (remapIssue env st) = versionId st \<and>
       (\<forall>v. v \<noteq> versionId st \<longrightarrow>
            annotationsByVersion (remapIssue env st) v = annotationsByVersion st v) \<and>
       activity (remapIssue env st) =
         \<lparr>item_id = genId_at env (idCalls st) ''ev'',
          item_at = nowIso_at env (clockCalls st),
          type_meta = ANNOTATION_REMAPPED (ann_id a) (quote a)\<rparr>
         # activity st)"
proof -
  have f: "find (\<lambda>b. ann_id b = ann_id a) (currentAnnotations st) = Some a"
    using find_distinct_id [OF d a] .
  have s: "\<And>f. stamp_map env (\<lambda>b. ann_id b = ann_id a) f (bucket st (versionId st)) (Suc (clockCalls st)) =
      (map (\<lambda>b. if b = a then f a (nowIso_at env (Suc (clockCalls st))) else b) (bucket st (versionId st)),
       Suc (Suc (clockCalls st)))"
    using stamp_map_single [OF d a] by (simp add: currentAnnotations_def)
  have vw: "mode st = viewer \<longrightarrow> remapIssue env st = st"
    by (simp add: remapIssue_def)
  have ed: "mode st = editor \<longrightarrow>
       currentAnnotations (remapIssue env st) =
         map (\<lambda>b. if b = a
                   then a\<lparr>status := Open,
                          quote := draft_quote draft,
                          anchor := TextRange (sectionId draft) (startLocal draft) (endLocal draft),
                          updatedAt := nowIso_at env (Suc (clockCalls st))\<rparr>
                   else b)
             (currentAnnotations st) \<and>
       createdAt (a\<lparr>status := Open,
                    quote := draft_quote draft,
                    anchor := TextRange (sectionId draft) (startLocal draft) (endLocal draft),
                    updatedAt := nowIso_at env (Suc (clockCalls st))\<rparr>) = createdAt a \<and>
       versionId (remapIssue env st) = versionId st \<and>
       (\<forall>v. v \<noteq> versionId st \<longrightarrow>
            annotationsByVersion (remapIssue env st) v = annotationsByVersion st v) \<and>
       activity (remapIssue env st) =
         \<lparr>item_id = genId_at env (idCalls st) ''ev'',
          item_at = nowIso_at env (clockCalls st),
          type_meta = ANNOTATION_REMAPPED (ann_id a) (quote a)\<rparr>
         # activity st"
    using f tgt ne dr
    by (simp add: remapIssue_def s [unfolded bucket_def] currentAnnotations_def bucket_def
        clearSelectionUI_def)
  from vw ed show ?thesis by blast
qed

section \<open>Import and export\<close>

text \<open>
  Claim C8, as amended: an import leaves the whole state unchanged when the file is not
  JSON, when its schema field is not exactly \<open>review-mini-v1\<close>, or when
  \<open>annotationsByVersion\<close> or \<open>activity\<close> is absent or falsy (null, false, zero or the empty
  string). Otherwise it replaces \<open>annotationsByVersion\<close> and \<open>activity\<close> by the values of the
  file as they are, of the declared type or not, and the current version by the \<open>versionId\<close>
  of the file when that is a string.
\<close>

theorem C8_import_all_or_nothing:
  "(JSON_parse f = None \<or> JSON_parse f = Some NullValue \<longrightarrow> importJsonFile f st = Inr st) \<and>
   (\<forall>p. JSON_parse f = Some (ObjectValue p) \<longrightarrow>
      falsy_field (annotationsByVersion_field p) =
        (annotationsByVersion_field p = Absent \<or> annotationsByVersion_field p = Other JNull \<or>
         annotationsByVersion_field p = Other (JBool False) \<or>
         annotationsByVersion_field p = Other (JNumber 0) \<or>
         annotationsByVersion_field p = Other (JString [])) \<and>
      falsy_field (activity_field p) =
        (activity_field p = Absent \<or> activity_field p = Other JNull \<or>
         activity_field p = Other (JBool False) \<or> activity_field p = Other (JNumber 0) \<or>
         activity_field p = Other (JString [])) \<and>
      (schema_field p \<noteq> Some (JString ''review-mini-v1'') \<or>
       falsy_field (annotationsByVersion_field p) \<or> falsy_field (activity_field p)
         \<longrightarrow> importJsonFile f st = Inr st) \<and>
      (schema_field p = Some (JString ''review-mini-v1'') \<and>
       \<not> falsy_field (annotationsByVersion_field p) \<and> \<not> falsy_field (activity_field p) \<longrightarrow>
         (case importJsonFile f st of
            Inr st' \<Rightarrow>
              annotationsByVersion_field p = Typed (annotationsByVersion st') \<and>
              activity_field p = Typed (activity st') \<and>
              versionId st' = (case versionId_field p of Some (JString v) \<Rightarrow> v | _ \<Rightarrow> versionId st)
          | Inl x \<Rightarrow>
              \<not> (is_typed (annotationsByVersion_field p) \<and> is_typed (activity_field p)) \<and>
              stored_annotationsByVersion x = annotationsByVersion_field p \<and>
              stored_activity x = activity_field p \<and>
              versionId (other_cells x) =
                (case versionId_field p of Some (JString v) \<Rightarrow> v | _ \<Rightarrow> versionId st))))"
proof (intro conjI allI impI)
  assume "JSON_parse f = None \<or> JSON_parse f = Some NullValue"
  then show "importJsonFile f st = Inr st" by (auto simp: importJsonFile_def)
next
  fix p
  show "falsy_field (annotationsByVersion_field p) =
        (annotationsByVersion_field p = Absent \<or> annotationsByVersion_field p = Other JNull \<or>
         annotationsByVersion_field p = Other (JBool False) \<or>
         annotationsByVersion_field p = Other (JNumber 0) \<or>
         annotationsByVersion_field p = Other (JString []))"
  proof (cases "annotationsByVersion_field p")
    case (Other j)
    then show ?thesis by (cases j) auto
  qed simp_all
next
  fix p
  show "falsy_field (activity_field p) =
        (activity_field p = Absent \<or> activity_field p = Other JNull \<or>
         activity_field p = Other (JBool False) \<or> activity_field p = Other (JNumber 0) \<or>
         activity_field p = Other (JString []))"
  proof (cases "activity_field p")
    case (Other j)
    then show ?thesis by (cases j) auto
  qed simp_all
next
  fix p
  assume "JSON_parse f = Some (ObjectValue p)"
    and "schema_field p \<noteq> Some (JString ''review-mini-v1'') \<or>
       falsy_field (annotationsByVersion_field p) \<or> falsy_field (activity_field p)"
  then show "importJsonFile f st = Inr st" by (auto simp: importJsonFile_def)
next
  fix p
  assume pr: "JSON_parse f = Some (ObjectValue p)"
    and ok: "schema_field p = Some (JString ''review-mini-v1'') \<and>
       \<not> falsy_field (annotationsByVersion_field p) \<and> \<not> falsy_field (activity_field p)"
  have v: "\<And>s. versionId (adoptVersionId (versionId_field p) s) =
      (case versionId_field p of Some (JString v) \<Rightarrow> v | _ \<Rightarrow> versionId s)"
  proof -
    fix s
    show "versionId (adoptVersionId (versionId_field p) s) =
      (case versionId_field p of Some (JString v) \<Rightarrow> v | _ \<Rightarrow> versionId s)"
    proof (cases "versionId_field p")
      case None
      then show ?thesis by simp
    next
      case (Some j)
      then show ?thesis by (cases j) simp_all
    qed
  qed
  show "case importJsonFile f st of
            Inr st' \<Rightarrow>
              annotationsByVersion_field p = Typed (annotationsByVersion st') \<and>
              activity_field p = Typed (activity st') \<and>
              versionId st' = (case versionId_field p of Some (JString v) \<Rightarrow> v | _ \<Rightarrow> versionId st)
          | Inl x \<Rightarrow>
              \<not> (is_typed (annotationsByVersion_field p) \<and> is_typed (activity_field p)) \<and>
              stored_annotationsByVersion x = annotationsByVersion_field p \<and>
              stored_activity x = activity_field p \<and>
              versionId (other_cells x) =
                (case versionId_field p of Some (JString v) \<Rightarrow> v | _ \<Rightarrow> versionId st)"
    using pr ok
    by (cases "annotationsByVersion_field p"; cases "activity_field p")
      (simp_all add: importJsonFile_def Let_def clearSelectionUI_def v)
qed


section \<open>The theorems on the sample data\<close>

text \<open>
  The theorems of the store are applied to the sample data, in editor mode and in viewer
  mode, and the import is run on files of each kind.
\<close>

theorem C3_witness:
  "map status (currentAnnotations (toggleResolved sample_env ''u'' (mixed_state editor ''v1'')))
     = [Resolved, Resolved, NeedsRemap] \<and>
   map updatedAt (currentAnnotations (toggleResolved sample_env ''u'' (mixed_state editor ''v1'')))
     = [nowIso_at sample_env 8, ''c'', ''c''] \<and>
   map (\<lambda>e. (item_at e, type_meta e)) (activity (toggleResolved sample_env ''u'' (mixed_state editor ''v1'')))
     = [(nowIso_at sample_env 7, ANNOTATION_RESOLVED ''u'' ''old quote'')] \<and>
   map type_meta (activity (toggleResolved sample_env ''uu'' (mixed_state editor ''v1'')))
     = [ANNOTATION_REOPENED ''uu'' ''old quote''] \<and>
   toggleResolved sample_env ''uuu'' (mixed_state editor ''v1'') = mixed_state editor ''v1'' \<and>
   toggleResolved sample_env ''u'' (mixed_state viewer ''v1'') = mixed_state viewer ''v1''"
proof -
  let ?S = "mixed_state editor ''v1''"
  let ?V = "mixed_state viewer ''v1''"
  let ?a1 = "sample_ann ''u'' ''v1'' Open (TextRange ''s2'' 10 19)"
  let ?a2 = "sample_ann ''uu'' ''v1'' Resolved (TextRange ''s2'' 10 19)"
  let ?a3 = "sample_ann ''uuu'' ''v1'' NeedsRemap (Unanchored NotFoundInVersion)"
  have ed: "mode ?S = editor" and act: "activity ?S = []" and cc: "clockCalls ?S = 7"
    and vw: "mode ?V = viewer"
    by (simp_all add: mixed_state_def sample_state_def)
  have d: "distinct (map ann_id (currentAnnotations ?S))"
    and dv: "distinct (map ann_id (currentAnnotations ?V))"
    by (simp_all add: mixed_state_current sample_bucket_def sample_ann_def)
  have m1: "?a1 \<in> set (currentAnnotations ?S)" by (simp add: mixed_state_current sample_bucket_def)
  have m2: "?a2 \<in> set (currentAnnotations ?S)" by (simp add: mixed_state_current sample_bucket_def)
  have m3: "?a3 \<in> set (currentAnnotations ?S)" by (simp add: mixed_state_current sample_bucket_def)
  have mv: "?a1 \<in> set (currentAnnotations ?V)" by (simp add: mixed_state_current sample_bucket_def)
  from C3_toggleResolved [OF m1 d, of sample_env] ed
  have r1: "currentAnnotations (toggleResolved sample_env ''u'' ?S) =
        map (\<lambda>b. if b = ?a1 then ?a1\<lparr>status := Resolved, updatedAt := nowIso_at sample_env 8\<rparr> else b)
          (sample_bucket Open Resolved NeedsRemap)"
    and l1: "map (\<lambda>e. (item_at e, type_meta e)) (activity (toggleResolved sample_env ''u'' ?S))
        = [(nowIso_at sample_env 7, ANNOTATION_RESOLVED ''u'' ''old quote'')]"
    by (simp_all add: sample_ann_def mixed_state_current act cc)
  from C3_toggleResolved [OF m2 d, of sample_env] ed
  have l2: "map type_meta (activity (toggleResolved sample_env ''uu'' ?S)) = [ANNOTATION_REOPENED ''uu'' ''old quote'']"
    by (simp add: sample_ann_def act)
  from C3_toggleResolved [OF m3 d, of sample_env]
  have l3: "toggleResolved sample_env ''uuu'' ?S = ?S"
    by (simp add: sample_ann_def)
  from C3_toggleResolved [OF mv dv, of sample_env] vw
  have l4: "toggleResolved sample_env ''u'' ?V = ?V"
    by simp
  have s1: "map status (currentAnnotations (toggleResolved sample_env ''u'' ?S)) = [Resolved, Resolved, NeedsRemap]"
    unfolding r1 by (simp add: sample_bucket_def sample_ann_def)
  have u1: "map updatedAt (currentAnnotations (toggleResolved sample_env ''u'' ?S)) = [nowIso_at sample_env 8, ''c'', ''c'']"
    unfolding r1 by (simp add: sample_bucket_def sample_ann_def)
  from s1 u1 l1 l2 l3 l4 show ?thesis by simp
qed


theorem C5_witness:
  "previousVersionId sample_doc (versionId (mixed_state editor ''v2'')) = Some ''v1'' \<and>
   uniqueIds sample_env \<and> ids_drawn sample_env (mixed_state editor ''v2'') \<and>
   map ann_id (bucket (mixed_state editor ''v2'') ''v1'') = [''u'', ''uu'', ''uuu''] \<and>
   map (\<lambda>a. (ann_id a, status a, anchor a, quote a, assigneeId a))
     (bucket (carryOverFromPrevious sample_env sample_doc (mixed_state editor ''v2'')) ''v2'')
     = [(''uuuuuu'', NeedsRemap, Unanchored UserNeedsRemap, ''old quote'', Some ''u2''),
        (''uuuuuuu'', NeedsRemap, Unanchored UserNeedsRemap, ''old quote'', Some ''u2'')] \<and>
   distinct
     (map ann_id (take 2 (bucket (carryOverFromPrevious sample_env sample_doc (mixed_state editor ''v2'')) ''v2''))) \<and>
   set (map ann_id (take 2 (bucket (carryOverFromPrevious sample_env sample_doc (mixed_state editor ''v2'')) ''v2'')))
     \<inter> set (map ann_id (sample_bucket Open Resolved NeedsRemap)) = {} \<and>
   map type_meta (activity (carryOverFromPrevious sample_env sample_doc (mixed_state editor ''v2'')))
     = [ANNOTATIONS_CARRIED_OVER ''v1'' ''v2'' 2] \<and>
   carryOverFromPrevious sample_env sample_doc (mixed_state viewer ''v2'') = mixed_state viewer ''v2''"
proof -
  let ?S = "mixed_state editor ''v2''"
  let ?S' = "carryOverFromPrevious sample_env sample_doc ?S"
  let ?V = "mixed_state viewer ''v2''"
  have v: "versionId ?S = ''v2''" and ed: "mode ?S = editor" and act: "activity ?S = []"
    and ic: "idCalls ?S = 5" and cur: "bucket ?S ''v2'' = []" and vw: "mode ?V = viewer"
    and old: "annotationsByVersion ?S ''v1'' = Some (sample_bucket Open Resolved NeedsRemap)"
    by (simp_all add: mixed_state_def sample_state_def bucket_def)
  have p: "previousVersionId sample_doc (versionId ?S) = Some ''v1''"
    by (simp add: v sample_previous)
  have src: "filter (\<lambda>a. status a \<noteq> Resolved) (bucket ?S ''v1'') =
      [sample_ann ''u'' ''v1'' Open (TextRange ''s2'' 10 19),
       sample_ann ''uuu'' ''v1'' NeedsRemap (Unanchored NotFoundInVersion)]"
    by (rule mixed_state_source)
  have ids: "map ann_id (bucket ?S ''v1'') = [''u'', ''uu'', ''uuu'']"
    by (simp add: bucket_def old sample_bucket_def sample_ann_def)
  have h: "mode ?S = editor \<and> ''v1'' \<noteq> [] \<and> filter (\<lambda>a. status a \<noteq> Resolved) (bucket ?S ''v1'') \<noteq> []"
    by (simp add: ed src)
  have g: "uniqueIds sample_env \<and> ids_drawn sample_env ?S"
    using sample_uniqueIds mixed_state_ids_drawn by simp
  note viewer = C5_carryOver [of sample_doc ?V sample_env, THEN conjunct2, THEN conjunct1, rule_format, OF vw]
  note t = C5_carryOver [of sample_doc ?S sample_env, THEN conjunct2, THEN conjunct2, rule_format, OF p,
      THEN conjunct2, rule_format, OF h, unfolded Let_def src v]
  from t have len: "length (bucket ?S' ''v2'') = 2"
    by (simp add: cur)
  from t have log: "map type_meta (activity ?S') = [ANNOTATIONS_CARRIED_OVER ''v1'' ''v2'' 2]"
    by (simp add: act)
  note el = t [THEN conjunct2, THEN conjunct2, THEN conjunct1, rule_format]
  note new = t [THEN conjunct2, THEN conjunct2, THEN conjunct2, THEN conjunct1, rule_format, OF g]
  have x: "ann_id (bucket ?S' ''v2'' ! 0) = ''uuuuuu'' \<and>
      quote (bucket ?S' ''v2'' ! 0) = ''old quote'' \<and>
      assigneeId (bucket ?S' ''v2'' ! 0) = Some ''u2'' \<and>
      status (bucket ?S' ''v2'' ! 0) = NeedsRemap \<and>
      anchor (bucket ?S' ''v2'' ! 0) = Unanchored UserNeedsRemap"
    using el [of 0] by (simp add: ic sample_ann_def sample_env_def numeral_eq_Suc)
  have y: "ann_id (bucket ?S' ''v2'' ! 1) = ''uuuuuuu'' \<and>
      quote (bucket ?S' ''v2'' ! 1) = ''old quote'' \<and>
      assigneeId (bucket ?S' ''v2'' ! 1) = Some ''u2'' \<and>
      status (bucket ?S' ''v2'' ! 1) = NeedsRemap \<and>
      anchor (bucket ?S' ''v2'' ! 1) = Unanchored UserNeedsRemap"
    using el [of 1] by (simp add: ic sample_ann_def sample_env_def numeral_eq_Suc)
  from new have n1: "distinct (map ann_id (take 2 (bucket ?S' ''v2'')))"
    by (simp add: numeral_2_eq_2)
  from new [THEN conjunct2, rule_format, OF old]
  have n2: "set (map ann_id (take 2 (bucket ?S' ''v2''))) \<inter>
      set (map ann_id (sample_bucket Open Resolved NeedsRemap)) = {}"
    by (simp add: numeral_2_eq_2)
  from len obtain a b where xy: "bucket ?S' ''v2'' = [a, b]"
    by (cases "bucket ?S' ''v2''"; cases "tl (bucket ?S' ''v2'')") auto
  from x y have row: "map (\<lambda>a. (ann_id a, status a, anchor a, quote a, assigneeId a)) (bucket ?S' ''v2'')
     = [(''uuuuuu'', NeedsRemap, Unanchored UserNeedsRemap, ''old quote'', Some ''u2''),
        (''uuuuuuu'', NeedsRemap, Unanchored UserNeedsRemap, ''old quote'', Some ''u2'')]"
    by (simp add: xy)
  from p g ids row n1 n2 log viewer show ?thesis by blast
qed

theorem C6_witness:
  "distinct (map v_id (versions sample_doc)) \<and>
   previousVersionId sample_doc (versionId two_open_state) = Some ''v1'' \<and>
   map status (bucket two_open_state ''v1'') = [Open, Resolved, Open] \<and>
   annotationsByVersion (carryOverFromPrevious sample_env sample_doc two_open_state) ''v1''
     = Some (sample_bucket Open Resolved Open) \<and>
   map status (bucket (carryOverFromPrevious sample_env sample_doc two_open_state) ''v2'')
     = [NeedsRemap, NeedsRemap]"
proof -
  have d: "distinct (map v_id (versions sample_doc))" by (simp add: sample_doc_def)
  have v: "versionId two_open_state = ''v2''" by (simp add: two_open_state_def sample_state_def)
  have p: "previousVersionId sample_doc (versionId two_open_state) = Some ''v1''"
    by (simp add: v sample_previous)
  have src: "annotationsByVersion two_open_state ''v1'' = Some (sample_bucket Open Resolved Open)"
    by (simp add: two_open_state_def sample_state_def)
  from C6_carryOver_source_unchanged [OF d p, of sample_env] src
  have same: "annotationsByVersion (carryOverFromPrevious sample_env sample_doc two_open_state) ''v1''
      = Some (sample_bucket Open Resolved Open)" by simp
  have st: "map status (bucket two_open_state ''v1'') = [Open, Resolved, Open]"
    by (simp add: bucket_def src sample_bucket_def sample_ann_def)
  have new: "map status (bucket (carryOverFromPrevious sample_env sample_doc two_open_state) ''v2'')
      = [NeedsRemap, NeedsRemap]"
    by (simp add: carryOverFromPrevious_def sample_previous [unfolded sample_doc_def] bucket_def
        sample_defs Let_def)
  from d p st same new show ?thesis by simp
qed

theorem C7_witness:
  "map (\<lambda>a. (ann_id a, status a)) (currentAnnotations (remap_state editor))
     = [(''u'', Open), (''uu'', Resolved), (''uuu'', NeedsRemap)] \<and>
   map (\<lambda>a. (ann_id a, status a, quote a, anchor a, createdAt a, updatedAt a))
     (currentAnnotations (remapIssue sample_env (remap_state editor)))
     = [(''u'', Open, ''old quote'', TextRange ''s2'' 10 19, ''c'', ''c''),
        (''uu'', Resolved, ''old quote'', TextRange ''s2'' 10 19, ''c'', ''c''),
        (''uuu'', Open, ''services.'', TextRange ''s2'' 10 19, ''c'', nowIso_at sample_env 8)] \<and>
   map (\<lambda>e. (item_at e, type_meta e)) (activity (remapIssue sample_env (remap_state editor)))
     = [(nowIso_at sample_env 7, ANNOTATION_REMAPPED ''uuu'' ''old quote'')] \<and>
   remapIssue sample_env (remap_state viewer) = remap_state viewer"
proof -
  let ?S = "remap_state editor"
  let ?V = "remap_state viewer"
  let ?a = "sample_ann ''uuu'' ''v1'' NeedsRemap (Unanchored NotFoundInVersion)"
  have cur: "currentAnnotations ?S = sample_bucket Open Resolved NeedsRemap"
    and curv: "currentAnnotations ?V = sample_bucket Open Resolved NeedsRemap"
    by (simp_all add: currentAnnotations_def bucket_def remap_state_def mixed_state_def sample_state_def)
  have ed: "mode ?S = editor" and act: "activity ?S = []" and cc: "clockCalls ?S = 7"
    and dr: "selectionDraft ?S = Some sample_draft"
    and vw: "mode ?V = viewer" and drv: "selectionDraft ?V = Some sample_draft"
    by (simp_all add: remap_state_def mixed_state_def sample_state_def)
  have tg: "remapTargetId ?S = Some (ann_id ?a)" and tgv: "remapTargetId ?V = Some (ann_id ?a)"
    by (simp_all add: remap_state_def sample_ann_def)
  have ne: "ann_id ?a \<noteq> []" by (simp add: sample_ann_def)
  have m: "?a \<in> set (currentAnnotations ?S)" and mv: "?a \<in> set (currentAnnotations ?V)"
    by (simp_all add: cur curv sample_bucket_def)
  have d: "distinct (map ann_id (currentAnnotations ?S))"
    and dv: "distinct (map ann_id (currentAnnotations ?V))"
    by (simp_all add: cur curv sample_bucket_def sample_ann_def)
  note viewer = C7_remapIssue [OF mv dv tgv ne drv, of sample_env, THEN conjunct1, rule_format, OF vw]
  note t = C7_remapIssue [OF m d tg ne dr, of sample_env, THEN conjunct2, rule_format, OF ed,
      unfolded cur cc act]
  from t have r: "currentAnnotations (remapIssue sample_env ?S) =
      map (\<lambda>b. if b = ?a
                then ?a\<lparr>status := Open, quote := draft_quote sample_draft,
                         anchor := TextRange (sectionId sample_draft) (startLocal sample_draft) (endLocal sample_draft),
                         updatedAt := nowIso_at sample_env 8\<rparr>
                else b)
        (sample_bucket Open Resolved NeedsRemap)"
    by simp
  from t have log: "map (\<lambda>e. (item_at e, type_meta e)) (activity (remapIssue sample_env ?S))
      = [(nowIso_at sample_env 7, ANNOTATION_REMAPPED ''uuu'' ''old quote'')]"
    by (simp add: sample_ann_def)
  have before: "map (\<lambda>a. (ann_id a, status a)) (currentAnnotations ?S)
     = [(''u'', Open), (''uu'', Resolved), (''uuu'', NeedsRemap)]"
    by (simp add: cur sample_bucket_def sample_ann_def)
  have after: "map (\<lambda>a. (ann_id a, status a, quote a, anchor a, createdAt a, updatedAt a))
     (currentAnnotations (remapIssue sample_env ?S))
     = [(''u'', Open, ''old quote'', TextRange ''s2'' 10 19, ''c'', ''c''),
        (''uu'', Resolved, ''old quote'', TextRange ''s2'' 10 19, ''c'', ''c''),
        (''uuu'', Open, ''services.'', TextRange ''s2'' 10 19, ''c'', nowIso_at sample_env 8)]"
    unfolding r by (simp add: sample_bucket_def sample_ann_def sample_draft_def)
  from before after log viewer show ?thesis by simp
qed

theorem C8_witness:
  "importJsonFile NotJson (mixed_state editor ''v2'') = Inr (mixed_state editor ''v2'') \<and>
   importJsonFile JsonNullText (mixed_state editor ''v2'') = Inr (mixed_state editor ''v2'') \<and>
   importJsonFile (JsonText (sample_payload ''review-mini-v2'' (Typed []))) (mixed_state editor ''v2'')
     = Inr (mixed_state editor ''v2'') \<and>
   importJsonFile (JsonText (sample_payload ''review-mini-v1'' Absent)) (mixed_state editor ''v2'')
     = Inr (mixed_state editor ''v2'') \<and>
   importJsonFile (JsonText (sample_payload ''review-mini-v1'' (Other JNull))) (mixed_state editor ''v2'')
     = Inr (mixed_state editor ''v2'') \<and>
   (case importJsonFile (JsonText (sample_payload ''review-mini-v1'' (Typed []))) (mixed_state editor ''v2'') of
      Inr st' \<Rightarrow>
        annotationsByVersion st' = [''v1'' \<mapsto> sample_bucket Open Resolved Open] \<and>
        activity st' = [] \<and> versionId st' = ''v1''
    | Inl x \<Rightarrow> False) \<and>
   (case importJsonFile (JsonText (sample_payload ''review-mini-v1'' (Other (JNumber 5))))
           (mixed_state editor ''v2'') of
      Inr st' \<Rightarrow> False
    | Inl x \<Rightarrow>
        stored_annotationsByVersion x = Typed [''v1'' \<mapsto> sample_bucket Open Resolved Open] \<and>
        stored_activity x = Other (JNumber 5) \<and> versionId (other_cells x) = ''v1'')"
proof -
  let ?S = "mixed_state editor ''v2''"
  have 1: "importJsonFile NotJson ?S = Inr ?S"
    using C8_import_all_or_nothing [of NotJson ?S] by simp
  have 2: "importJsonFile JsonNullText ?S = Inr ?S"
    using C8_import_all_or_nothing [of JsonNullText ?S] by simp
  have 3: "importJsonFile (JsonText (sample_payload ''review-mini-v2'' (Typed []))) ?S = Inr ?S"
    using C8_import_all_or_nothing [of "JsonText (sample_payload ''review-mini-v2'' (Typed []))" ?S]
    by (simp add: sample_payload_def)
  have 4: "importJsonFile (JsonText (sample_payload ''review-mini-v1'' Absent)) ?S = Inr ?S"
    using C8_import_all_or_nothing [of "JsonText (sample_payload ''review-mini-v1'' Absent)" ?S]
    by (simp add: sample_payload_def)
  have 5: "importJsonFile (JsonText (sample_payload ''review-mini-v1'' (Other JNull))) ?S = Inr ?S"
    using C8_import_all_or_nothing [of "JsonText (sample_payload ''review-mini-v1'' (Other JNull))" ?S]
    by (simp add: sample_payload_def)
  have 6: "case importJsonFile (JsonText (sample_payload ''review-mini-v1'' (Typed []))) ?S of
      Inr st' \<Rightarrow>
        annotationsByVersion st' = [''v1'' \<mapsto> sample_bucket Open Resolved Open] \<and>
        activity st' = [] \<and> versionId st' = ''v1''
    | Inl x \<Rightarrow> False"
    using C8_import_all_or_nothing [of "JsonText (sample_payload ''review-mini-v1'' (Typed []))" ?S]
    by (cases "importJsonFile (JsonText (sample_payload ''review-mini-v1'' (Typed []))) ?S")
      (simp_all add: sample_payload_def)
  have 7: "case importJsonFile (JsonText (sample_payload ''review-mini-v1'' (Other (JNumber 5)))) ?S of
      Inr st' \<Rightarrow> False
    | Inl x \<Rightarrow>
        stored_annotationsByVersion x = Typed [''v1'' \<mapsto> sample_bucket Open Resolved Open] \<and>
        stored_activity x = Other (JNumber 5) \<and> versionId (other_cells x) = ''v1''"
    using C8_import_all_or_nothing [of "JsonText (sample_payload ''review-mini-v1'' (Other (JNumber 5)))" ?S]
    by (cases "importJsonFile (JsonText (sample_payload ''review-mini-v1'' (Other (JNumber 5)))) ?S")
      (simp_all add: sample_payload_def)
  from 1 2 3 4 5 6 7 show ?thesis by blast
qed

theorem C8_falsy_field_counterexample:
  "JSON_parse (JsonText (sample_payload ''review-mini-v1'' (Other (JNumber 0))))
     = Some (ObjectValue (sample_payload ''review-mini-v1'' (Other (JNumber 0)))) \<and>
   schema_field (sample_payload ''review-mini-v1'' (Other (JNumber 0))) = Some (JString ''review-mini-v1'') \<and>
   annotationsByVersion_field (sample_payload ''review-mini-v1'' (Other (JNumber 0)))
     = Typed [''v1'' \<mapsto> sample_bucket Open Resolved Open] \<and>
   activity_field (sample_payload ''review-mini-v1'' (Other (JNumber 0))) = Other (JNumber 0) \<and>
   importJsonFile (JsonText (sample_payload ''review-mini-v1'' (Other (JNumber 0)))) (mixed_state editor ''v2'')
     = Inr (mixed_state editor ''v2'') \<and>
   map status (bucket (mixed_state editor ''v2'') ''v1'') = [Open, Resolved, NeedsRemap] \<and>
   map status (sample_bucket Open Resolved Open) = [Open, Resolved, Open]"
  by (simp add: importJsonFile_def sample_payload_def bucket_def mixed_state_def sample_state_def
      sample_bucket_def sample_ann_def)

theorem C10_witness:
  "map createdAt (filter (\<lambda>a. status a \<noteq> Resolved) (bucket (mixed_state editor ''v2'') ''v1''))
     = [''c'', ''c''] \<and>
   clockCalls (mixed_state editor ''v2'') = 7 \<and>
   clockCalls (carryOverFromPrevious sample_env sample_doc (mixed_state editor ''v2'')) = 12 \<and>
   createdAt (bucket (carryOverFromPrevious sample_env sample_doc (mixed_state editor ''v2'')) ''v2'' ! 0)
     = nowIso_at sample_env 7 \<and>
   updatedAt (bucket (carryOverFromPrevious sample_env sample_doc (mixed_state editor ''v2'')) ''v2'' ! 0)
     = nowIso_at sample_env 8 \<and>
   createdAt (bucket (carryOverFromPrevious sample_env sample_doc (mixed_state editor ''v2'')) ''v2'' ! 1)
     = nowIso_at sample_env 9 \<and>
   updatedAt (bucket (carryOverFromPrevious sample_env sample_doc (mixed_state editor ''v2'')) ''v2'' ! 1)
     = nowIso_at sample_env 10"
proof -
  let ?S = "mixed_state editor ''v2''"
  have v: "versionId ?S = ''v2''" and ed: "mode ?S = editor" and cc: "clockCalls ?S = 7"
    by (simp_all add: mixed_state_def sample_state_def)
  have p: "previousVersionId sample_doc (versionId ?S) = Some ''v1''"
    by (simp add: v sample_previous)
  have ne: "''v1'' \<noteq> []" by simp
  have k0: "0 < length (filter (\<lambda>a. status a \<noteq> Resolved) (bucket ?S ''v1''))"
    and k1: "1 < length (filter (\<lambda>a. status a \<noteq> Resolved) (bucket ?S ''v1''))"
    by (simp_all add: mixed_state_source)
  have src: "map createdAt (filter (\<lambda>a. status a \<noteq> Resolved) (bucket ?S ''v1'')) = [''c'', ''c'']"
    by (simp add: mixed_state_source sample_ann_def)
  have after: "clockCalls (carryOverFromPrevious sample_env sample_doc ?S) = 12"
    by (simp add: carryOverFromPrevious_def p ed Let_def mixed_state_source cc)
  note t0 = C10_carried_timestamps [OF ed p ne k0, of sample_env, unfolded v cc]
  note t1 = C10_carried_timestamps [OF ed p ne k1, of sample_env, unfolded v cc]
  from src cc after t0 t1 show ?thesis by simp
qed

end
